theory Spec2Isabelle
  imports Main "HOL-Library.Char_ord" "HOL-Library.List_Lexorder"
begin

section \<open>Delivery rule-evaluation engine\<close>

text \<open>
  A shallow embedding of the delivery services of the repository
  (\<^verbatim>\<open>cartDelayCalculator.ts\<close>, \<^verbatim>\<open>dateAvailabilityService.ts\<close>,
  \<^verbatim>\<open>cityCutoffService.ts\<close>, \<^verbatim>\<open>slotAvailabilityService.ts\<close>,
  \<^verbatim>\<open>checkoutEligibilityValidator.ts\<close>).

  Conventions of the embedding.
  \<^item> A JavaScript \<^verbatim>\<open>number\<close> that holds an identifier, a delay, a count or a calendar
    component is an \<^typ>\<open>int\<close>; \<^verbatim>\<open>NaN\<close>, where the code can produce it, is \<open>None\<close> of an
    \<^typ>\<open>int option\<close>. The rounding of doubles above \<open>2^53\<close> is outside the model.
  \<^item> A value typed \<^verbatim>\<open>T | null\<close> or an optional field \<^verbatim>\<open>f?: T\<close> is a \<open>T option\<close>.
    The truthiness tests the code applies to such values (\<^verbatim>\<open>!x\<close>, \<^verbatim>\<open>x && \<dots>\<close>,
    \<^verbatim>\<open>x || d\<close>) are written out: \<open>0\<close> and the empty string are falsy.
  \<^item> Strings are lists of 8-bit characters, read as the code units \<open>0\<dots>255\<close>.
  \<^item> Regular expressions are translated into matching functions that return the capture
    groups; the pattern is quoted above each of them.
\<close>

subsection \<open>Strings\<close>

definition isDigit :: "char \<Rightarrow> bool" where
  \<comment> \<open>the class \<^verbatim>\<open>\d\<close>\<close>
  "isDigit c = (c \<in> set ''0123456789'')"

definition isWhiteSpace :: "char \<Rightarrow> bool" where
  \<comment> \<open>white space and line terminators stripped by \<^verbatim>\<open>String.prototype.trim\<close>,
      among the code units below 256\<close>
  "isWhiteSpace c =
     (c \<in> {CHR 0x09, CHR 0x0A, CHR 0x0B, CHR 0x0C, CHR 0x0D, CHR '' '', CHR 0xA0})"

definition trim :: "string \<Rightarrow> string" where
  "trim s = rev (dropWhile isWhiteSpace (rev (dropWhile isWhiteSpace s)))"

definition toLowerChar :: "char \<Rightarrow> char" where
  "toLowerChar c =
     (let n = (of_char c :: nat) in
      if (65 \<le> n \<and> n \<le> 90) \<or> (192 \<le> n \<and> n \<le> 222 \<and> n \<noteq> 215)
      then char_of (n + 32) else c)"

definition toLowerCase :: "string \<Rightarrow> string" where
  "toLowerCase s = map toLowerChar s"

definition digitValue :: "char \<Rightarrow> nat" where
  \<comment> \<open>the position of a digit in \<^verbatim>\<open>0123456789\<close>\<close>
  "digitValue c = (if isDigit c then length (takeWhile (\<lambda>d. d \<noteq> c) ''0123456789'') else 0)"

definition digitsValue :: "string \<Rightarrow> nat" where
  \<comment> \<open>the number a string of decimal digits denotes\<close>
  "digitsValue ds = foldl (\<lambda>acc c. 10 * acc + digitValue c) 0 ds"

definition parseInt :: "string \<Rightarrow> int option" where
  \<comment> \<open>\<^verbatim>\<open>parseInt(s, 10)\<close>: leading white space, an optional sign, the longest prefix of
      digits; \<open>None\<close> is \<^verbatim>\<open>NaN\<close>. The code calls \<^verbatim>\<open>parseInt(s)\<close> without a radix only on
      strings of digits, where the radix is 10 as well.\<close>
  "parseInt s =
     (let t = dropWhile isWhiteSpace s;
          neg = (t \<noteq> [] \<and> hd t = CHR ''-'');
          u = (if t \<noteq> [] \<and> (hd t = CHR ''-'' \<or> hd t = CHR ''+'') then tl t else t);
          ds = takeWhile isDigit u
      in if ds = [] then None
         else Some (if neg then - int (digitsValue ds) else int (digitsValue ds)))"

fun stripPrefix :: "string \<Rightarrow> string \<Rightarrow> string option" where
  "stripPrefix [] s = Some s"
| "stripPrefix (p # ps) [] = None"
| "stripPrefix (p # ps) (c # cs) = (if p = c then stripPrefix ps cs else None)"

subsection \<open>Cart delay calculator\<close>

record CartProduct =
  tags :: "string list option"  \<comment> \<open>\<open>None\<close>: the field is missing or is not an array\<close>


definition matchDelayBody :: "string \<Rightarrow> string option option" where
  \<comment> \<open>\<^verbatim>\<open>delay(?:-(\d+))?$\<close>; the result is the capture group, \<open>None\<close> when it did not take part\<close>
  "matchDelayBody r =
     (case stripPrefix ''delay'' r of
        None \<Rightarrow> None
      | Some t \<Rightarrow>
          (case stripPrefix ''-'' t of
             Some ds \<Rightarrow>
               if ds \<noteq> [] \<and> list_all isDigit ds then Some (Some ds)
               else if t = [] then Some None else None
           | None \<Rightarrow> if t = [] then Some None else None))"

definition DELAY_TAG_PATTERN :: "string \<Rightarrow> string option option" where
  \<comment> \<open>\<^verbatim>\<open>/^(?:cake-)?delay(?:-(\d+))?$/i\<close>, applied to a string already in lower case;
      \<open>None\<close>: no match, \<open>Some g\<close>: a match with capture group \<open>g\<close>\<close>
  "DELAY_TAG_PATTERN s =
     (case stripPrefix ''cake-'' s of
        Some r \<Rightarrow> (case matchDelayBody r of Some g \<Rightarrow> Some g | None \<Rightarrow> matchDelayBody s)
      | None \<Rightarrow> matchDelayBody s)"

definition parseDelayFromTag :: "string \<Rightarrow> int" where
  "parseDelayFromTag tag =
     (let normalizedTag = toLowerCase (trim tag) in
      case DELAY_TAG_PATTERN normalizedTag of
        None \<Rightarrow> 0
      | Some g \<Rightarrow>
          (let delayValue =
                 (case g of
                    Some ds \<Rightarrow> if ds \<noteq> [] then parseInt ds else Some 1
                  | None \<Rightarrow> Some 1)
           in case delayValue of
                None \<Rightarrow> 0
              | Some v \<Rightarrow> if v < 0 then 0 else v))"


definition getProductDelay :: "CartProduct \<Rightarrow> int" where
  "getProductDelay product =
     (case tags product of
        None \<Rightarrow> 0
      | Some ts \<Rightarrow> foldl (\<lambda>maxDelay tag. max maxDelay (parseDelayFromTag tag)) 0 ts)"

definition calculateCartDelay :: "CartProduct list \<Rightarrow> int" where
  "calculateCartDelay products =
     (if products = [] then 0
      else foldl (\<lambda>maxDelay product. max maxDelay (getProductDelay product)) 0 products)"



subsection \<open>Facts about the string functions\<close>


lemma isDigit_not_ws: "isDigit c \<Longrightarrow> \<not> isWhiteSpace c"
  by (auto simp: isDigit_def isWhiteSpace_def)

lemma takeWhile_all: "list_all P xs \<Longrightarrow> takeWhile P xs = xs"
  by (induction xs) auto

lemma parseInt_digits:
  assumes "ds \<noteq> []" "list_all isDigit ds"
  shows "parseInt ds = Some (int (digitsValue ds))"
proof -
  have c: "isDigit (hd ds)" using assms by (cases ds) auto
  then have "\<not> isWhiteSpace (hd ds)" by (rule isDigit_not_ws)
  then have dw: "dropWhile isWhiteSpace ds = ds" using assms(1) by (cases ds) auto
  have nsign: "hd ds \<noteq> CHR ''-''" "hd ds \<noteq> CHR ''+''" using c by (auto simp: isDigit_def)
  have tw: "takeWhile isDigit ds = ds" using assms(2) by (rule takeWhile_all)
  show ?thesis unfolding parseInt_def Let_def dw by (simp add: nsign tw assms(1))
qed










lemma foldl_max:
  fixes f :: "'a \<Rightarrow> int"
  shows "foldl (\<lambda>m x. max m (f x)) a xs = Max (insert a (f ` set xs))"
proof (induction xs arbitrary: a)
  case Nil
  then show ?case by simp
next
  case (Cons x xs)
  have "Max (insert (max a (f x)) (f ` set xs)) = Max (insert a (insert (f x) (f ` set xs)))"
  proof (cases "set xs = {}")
    case True
    then show ?thesis by (simp add: max.commute)
  next
    case False
    then show ?thesis by (simp add: max.assoc)
  qed
  then show ?case using Cons.IH[of "max a (f x)"] by simp
qed


lemma getProductDelay_Max:
  "getProductDelay p =
     (case tags p of None \<Rightarrow> 0 | Some ts \<Rightarrow> Max (insert 0 (parseDelayFromTag ` set ts)))"
  by (simp add: getProductDelay_def foldl_max split: option.splits)

lemma getProductDelay_nonneg: "0 \<le> getProductDelay p"
  by (simp add: getProductDelay_Max split: option.splits)

lemma calculateCartDelay_Max:
  "calculateCartDelay products = Max (insert 0 (getProductDelay ` set products))"
  by (simp add: calculateCartDelay_def foldl_max)

subsection \<open>The Date object\<close>

text \<open>
  A \<^verbatim>\<open>Date\<close> is its time value: the milliseconds since the epoch, read in local time as
  ECMAScript does (\<open>Day\<close>, \<open>TimeWithinDay\<close>, \<open>DayFromYear\<close>, \<open>MakeDay\<close>, \<open>MakeDate\<close>). The
  offset of local time is taken as fixed (no daylight-saving transitions), and the bound of
  the time value (\<open>10^8\<close> days on each side of the epoch) is not modelled. The constructor
  \<^verbatim>\<open>new Date(year, month, date)\<close> reads a year from 0 to 99 as \<open>1900 + year\<close>.
\<close>

definition msPerDay :: int where "msPerDay = 86400000"
definition msPerHour :: int where "msPerHour = 3600000"
definition msPerMinute :: int where "msPerMinute = 60000"

datatype Date = Date (timeValue: int)

definition Day :: "int \<Rightarrow> int" where
  "Day t = t div msPerDay"

definition TimeWithinDay :: "int \<Rightarrow> int" where
  "TimeWithinDay t = t mod msPerDay"

definition DayFromYear :: "int \<Rightarrow> int" where
  "DayFromYear y =
     365 * (y - 1970) + (y - 1969) div 4 - (y - 1901) div 100 + (y - 1601) div 400"

definition InLeapYear :: "int \<Rightarrow> bool" where
  "InLeapYear y = (y mod 4 = 0 \<and> (y mod 100 \<noteq> 0 \<or> y mod 400 = 0))"

definition DaysInYear :: "int \<Rightarrow> int" where
  "DaysInYear y = (if InLeapYear y then 366 else 365)"

definition YearFromDay :: "int \<Rightarrow> int" where
  "YearFromDay d =
     (let y = 1970 + (400 * d) div 146097 in
      if DayFromYear (y + 1) \<le> d then y + 1
      else if DayFromYear y \<le> d then y
      else y - 1)"

definition DayWithinYear :: "int \<Rightarrow> int" where
  "DayWithinYear d = d - DayFromYear (YearFromDay d)"

definition monthStart :: "int \<Rightarrow> bool \<Rightarrow> int" where
  "monthStart m leap =
     (let l = (if leap then 1 else 0) in
      if m = 0 then 0 else if m = 1 then 31 else if m = 2 then 59 + l
      else if m = 3 then 90 + l else if m = 4 then 120 + l else if m = 5 then 151 + l
      else if m = 6 then 181 + l else if m = 7 then 212 + l else if m = 8 then 243 + l
      else if m = 9 then 273 + l else if m = 10 then 304 + l else 334 + l)"

definition MonthFromDay :: "int \<Rightarrow> int" where
  "MonthFromDay d =
     (let w = DayWithinYear d; leap = InLeapYear (YearFromDay d) in
      if w < monthStart 1 leap then 0 else if w < monthStart 2 leap then 1
      else if w < monthStart 3 leap then 2 else if w < monthStart 4 leap then 3
      else if w < monthStart 5 leap then 4 else if w < monthStart 6 leap then 5
      else if w < monthStart 7 leap then 6 else if w < monthStart 8 leap then 7
      else if w < monthStart 9 leap then 8 else if w < monthStart 10 leap then 9
      else if w < monthStart 11 leap then 10 else 11)"

definition DateFromDay :: "int \<Rightarrow> int" where
  "DateFromDay d =
     DayWithinYear d - monthStart (MonthFromDay d) (InLeapYear (YearFromDay d)) + 1"

definition MakeDay :: "int \<Rightarrow> int \<Rightarrow> int \<Rightarrow> int" where
  "MakeDay year month date =
     (let ym = year + month div 12; mn = month mod 12 in
      DayFromYear ym + monthStart mn (InLeapYear ym) + date - 1)"

definition MakeDate :: "int \<Rightarrow> int \<Rightarrow> int" where
  "MakeDate day time = day * msPerDay + time"

definition getFullYear :: "Date \<Rightarrow> int" where
  "getFullYear d = YearFromDay (Day (timeValue d))"

definition getMonth :: "Date \<Rightarrow> int" where
  "getMonth d = MonthFromDay (Day (timeValue d))"

definition getDate :: "Date \<Rightarrow> int" where
  "getDate d = DateFromDay (Day (timeValue d))"

definition getHours :: "Date \<Rightarrow> int" where
  "getHours d = (timeValue d div msPerHour) mod 24"

definition getMinutes :: "Date \<Rightarrow> int" where
  "getMinutes d = (timeValue d div msPerMinute) mod 60"

definition MakeFullYear :: "int \<Rightarrow> int" where
  "MakeFullYear y = (if 0 \<le> y \<and> y \<le> 99 then 1900 + y else y)"

definition newDate :: "int \<Rightarrow> int \<Rightarrow> int \<Rightarrow> Date" where
  "newDate year month date = Date (MakeDate (MakeDay (MakeFullYear year) month date) 0)"

definition newDateTime :: "int \<Rightarrow> int \<Rightarrow> int \<Rightarrow> int \<Rightarrow> int \<Rightarrow> Date" where
  "newDateTime year month date hours minutes =
     Date (MakeDate (MakeDay (MakeFullYear year) month date)
             (hours * msPerHour + minutes * msPerMinute))"



subsection \<open>Facts about the calendar\<close>

lemma div_bounds: "(0::int) < n \<Longrightarrow> n * (x div n) \<le> x \<and> x < n * (x div n) + n"
proof -
  assume n: "0 < n"
  have "x = n * (x div n) + x mod n" by simp
  moreover have "0 \<le> x mod n" "x mod n < n" using n by simp_all
  ultimately show ?thesis by linarith
qed

lemma DayFromYear_bounds:
  "400 * DayFromYear y \<le> 146097 * y - 287810497"
  "146097 * y - 287811697 \<le> 400 * DayFromYear y"
proof -
  define A where "A = (y - 1969) div 4"
  define B where "B = (y - 1901) div 100"
  define C where "C = (y - 1601) div 400"
  have a: "4 * A \<le> y - 1969" "y - 1969 < 4 * A + 4"
    unfolding A_def using div_bounds[of 4 "y - 1969"] by simp_all
  have b: "100 * B \<le> y - 1901" "y - 1901 < 100 * B + 100"
    unfolding B_def using div_bounds[of 100 "y - 1901"] by simp_all
  have c: "400 * C \<le> y - 1601" "y - 1601 < 400 * C + 400"
    unfolding C_def using div_bounds[of 400 "y - 1601"] by simp_all
  have f: "400 * DayFromYear y = 146000 * y - 287620000 + 400 * A - 400 * B + 400 * C"
    unfolding DayFromYear_def A_def B_def C_def by simp
  show "400 * DayFromYear y \<le> 146097 * y - 287810497"
    unfolding f using a b c by linarith
  show "146097 * y - 287811697 \<le> 400 * DayFromYear y"
    unfolding f using a b c by linarith
qed

lemma div_step:
  "(0::int) < n \<Longrightarrow> (x + 1) div n = (if (x + 1) mod n = 0 then x div n + 1 else x div n)"
proof -
  assume n: "0 < n"
  have x: "x = n * (x div n) + x mod n" by simp
  have r: "0 \<le> x mod n" "x mod n < n" using n by simp_all
  show ?thesis
  proof (cases "x mod n = n - 1")
    case True
    have "x + 1 = n * (x div n) + (x mod n + 1)" using x by linarith
    also have "\<dots> = n * (x div n) + n" using True by simp
    also have "\<dots> = (x div n + 1) * n" by (simp add: algebra_simps)
    finally have e: "x + 1 = (x div n + 1) * n" .
    have "(x + 1) div n = x div n + 1" using n by (subst e) simp
    moreover have "(x + 1) mod n = 0" by (subst e) simp
    ultimately show ?thesis by simp
  next
    case False
    then have lt: "x mod n + 1 < n" using r by linarith
    have e: "x + 1 = (x mod n + 1) + (x div n) * n" using x by (simp add: algebra_simps)
    have d0: "(x mod n + 1) div n = 0" using r lt by (simp add: div_pos_pos_trivial)
    have m0: "(x mod n + 1) mod n = x mod n + 1" using r lt by (simp add: mod_pos_pos_trivial)
    have "(x + 1) div n = (x mod n + 1) div n + x div n"
      using n by (subst e) (simp only: div_mult_self1 div_mult_self2 div_mult_self3 div_mult_self4)
    then have "(x + 1) div n = x div n" using d0 by simp
    moreover have "(x + 1) mod n = (x mod n + 1) mod n"
      by (subst e) (simp only: mod_mult_self1 mod_mult_self2 mod_mult_self3 mod_mult_self4)
    ultimately show ?thesis using r m0 by simp
  qed
qed

lemma mod_shift: "((y::int) - q * n) mod n = y mod n"
proof -
  have "y - q * n = y + (- q) * n" by simp
  then show ?thesis by (metis mod_mult_self1)
qed

lemma mod_100_4: "(y::int) mod 100 = 0 \<Longrightarrow> y mod 4 = 0"
proof -
  assume "y mod 100 = 0"
  then have "100 dvd y" by (simp add: dvd_eq_mod_eq_0)
  moreover have "(4::int) dvd 100" by simp
  ultimately have "4 dvd y" by (rule dvd_trans[rotated])
  then show ?thesis by simp
qed

lemma mod_400_100: "(y::int) mod 400 = 0 \<Longrightarrow> y mod 100 = 0"
proof -
  assume "y mod 400 = 0"
  then have "400 dvd y" by (simp add: dvd_eq_mod_eq_0)
  moreover have "(100::int) dvd 400" by simp
  ultimately have "100 dvd y" by (rule dvd_trans[rotated])
  then show ?thesis by simp
qed

lemma DayFromYear_Suc: "DayFromYear (y + 1) = DayFromYear y + DaysInYear y"
proof -
  have m4: "(y - 1969 + 1) mod 4 = y mod 4" using mod_shift[of y 492 4] by simp
  have m100: "(y - 1901 + 1) mod 100 = y mod 100" using mod_shift[of y 19 100] by simp
  have m400: "(y - 1601 + 1) mod 400 = y mod 400" using mod_shift[of y 4 400] by simp
  have a: "(y + 1 - 1969) div 4 = (if y mod 4 = 0 then (y - 1969) div 4 + 1 else (y - 1969) div 4)"
    using div_step[of 4 "y - 1969"] m4 by (simp add: algebra_simps)
  have b: "(y + 1 - 1901) div 100 =
             (if y mod 100 = 0 then (y - 1901) div 100 + 1 else (y - 1901) div 100)"
    using div_step[of 100 "y - 1901"] m100 by (simp add: algebra_simps)
  have c: "(y + 1 - 1601) div 400 =
             (if y mod 400 = 0 then (y - 1601) div 400 + 1 else (y - 1601) div 400)"
    using div_step[of 400 "y - 1601"] m400 by (simp add: algebra_simps)
  show ?thesis
    unfolding DayFromYear_def DaysInYear_def InLeapYear_def a b c
    using mod_100_4[of y] mod_400_100[of y] by auto
qed

lemma DaysInYear_pos: "365 \<le> DaysInYear y" "DaysInYear y \<le> 366"
  by (simp_all add: DaysInYear_def)

lemma DayFromYear_mono: "y \<le> y' \<Longrightarrow> DayFromYear y \<le> DayFromYear y'"
proof (induction y' rule: int_ge_induct)
  case base
  then show ?case by simp
next
  case (step i)
  then show ?case using DayFromYear_Suc[of i] DaysInYear_pos(1)[of i] by linarith
qed

lemma YearFromDay_bounds:
  "DayFromYear (YearFromDay d) \<le> d" "d < DayFromYear (YearFromDay d + 1)"
proof -
  define q where "q = (400 * d) div 146097"
  define y where "y = 1970 + q"
  define y1 where "y1 = y - 1"
  define y2 where "y2 = y + 2"
  have q: "146097 * q \<le> 400 * d" "400 * d < 146097 * q + 146097"
    unfolding q_def using div_bounds[of 146097 "400 * d"] by simp_all
  have lo: "DayFromYear y1 \<le> d"
    using DayFromYear_bounds(1)[of y1] q y1_def y_def by linarith
  have hi: "d < DayFromYear y2"
    using DayFromYear_bounds(2)[of y2] q y2_def y_def by linarith
  have Y: "YearFromDay d =
             (if DayFromYear (y + 1) \<le> d then y + 1 else if DayFromYear y \<le> d then y else y - 1)"
    unfolding YearFromDay_def y_def q_def Let_def by simp
  show "DayFromYear (YearFromDay d) \<le> d" unfolding Y using lo y1_def by simp
  have e2: "y + 1 + 1 = y + 2" by simp
  show "d < DayFromYear (YearFromDay d + 1)" unfolding Y using hi y2_def by (auto simp: e2)
qed

lemma YearFromDay_unique:
  assumes "DayFromYear y \<le> d" "d < DayFromYear (y + 1)"
  shows "YearFromDay d = y"
proof (rule ccontr)
  assume ne: "YearFromDay d \<noteq> y"
  let ?Y = "YearFromDay d"
  show False
  proof (cases "?Y < y")
    case True
    then have "DayFromYear (?Y + 1) \<le> DayFromYear y" by (intro DayFromYear_mono) simp
    then show False using YearFromDay_bounds(2)[of d] assms(1) by linarith
  next
    case False
    then have "y + 1 \<le> ?Y" using ne by simp
    then have "DayFromYear (y + 1) \<le> DayFromYear ?Y" by (rule DayFromYear_mono)
    then show False using YearFromDay_bounds(1)[of d] assms(2) by linarith
  qed
qed

lemma DayWithinYear_range:
  "0 \<le> DayWithinYear d" "DayWithinYear d < DaysInYear (YearFromDay d)"
  using YearFromDay_bounds[of d] DayFromYear_Suc[of "YearFromDay d"]
  by (simp_all add: DayWithinYear_def)

lemma MonthFromDay_range: "0 \<le> MonthFromDay d" "MonthFromDay d \<le> 11"
  by (simp_all add: MonthFromDay_def Let_def)

lemma DateFromDay_range: "1 \<le> DateFromDay d" "DateFromDay d \<le> 31"
  using DayWithinYear_range[of d]
  by (auto simp: DateFromDay_def MonthFromDay_def monthStart_def DaysInYear_def Let_def
           split: if_splits)

lemma MakeDay_civil:
  "MakeDay (YearFromDay d) (MonthFromDay d) dt = d - DateFromDay d + dt"
proof -
  have m: "MonthFromDay d div 12 = 0" "MonthFromDay d mod 12 = MonthFromDay d"
    using MonthFromDay_range[of d] by (simp_all add: div_pos_pos_trivial mod_pos_pos_trivial)
  show ?thesis by (simp add: MakeDay_def Let_def m DateFromDay_def DayWithinYear_def)
qed


subsection \<open>Date availability service\<close>

definition truthyNum :: "int option \<Rightarrow> bool" where
  \<comment> \<open>truthiness of an optional number: \<^verbatim>\<open>undefined\<close>, \<^verbatim>\<open>null\<close> and \<open>0\<close> are falsy\<close>
  "truthyNum x = (case x of None \<Rightarrow> False | Some n \<Rightarrow> n \<noteq> 0)"

definition truthyStr :: "string option \<Rightarrow> bool" where
  \<comment> \<open>truthiness of an optional string: \<^verbatim>\<open>undefined\<close>, \<^verbatim>\<open>null\<close> and \<^verbatim>\<open>""\<close> are falsy\<close>
  "truthyStr x = (case x of None \<Rightarrow> False | Some s \<Rightarrow> s \<noteq> [])"

fun digitsOf :: "nat \<Rightarrow> string" where
  "digitsOf n =
     (if n < 10 then [''0123456789'' ! n]
      else digitsOf (n div 10) @ [''0123456789'' ! (n mod 10)])"

declare digitsOf.simps [simp del]

definition String :: "int \<Rightarrow> string" where
  \<comment> \<open>\<^verbatim>\<open>String(n)\<close> and the conversion of a number in a template literal\<close>
  "String n = (if n < 0 then CHR ''-'' # digitsOf (nat (- n)) else digitsOf (nat n))"

definition padStart2 :: "string \<Rightarrow> string" where
  \<comment> \<open>\<^verbatim>\<open>s.padStart(2, "0")\<close>\<close>
  "padStart2 s = replicate (2 - length s) CHR ''0'' @ s"

fun split :: "char \<Rightarrow> string \<Rightarrow> string list" where
  \<comment> \<open>\<^verbatim>\<open>s.split(c)\<close> for a separator of one character\<close>
  "split c [] = [[]]"
| "split c (x # xs) =
     (if x = c then [] # split c xs
      else (case split c xs of w # ws \<Rightarrow> (x # w) # ws | [] \<Rightarrow> [[x]]))"

definition Number :: "string \<Rightarrow> int option" where
  \<comment> \<open>\<^verbatim>\<open>Number(s)\<close> on white space around decimal digits (the empty string is 0). The code
      applies it only to the parts of a string that matched \<^verbatim>\<open>\d{4}-\d{2}-\d{2}\<close> after
      trimming; \<open>None\<close> stands for \<^verbatim>\<open>NaN\<close>.\<close>
  "Number s =
     (let t = trim s in
      if t = [] then Some 0
      else if list_all isDigit t then Some (int (digitsValue t))
      else None)"

definition matchIsoDate :: "string \<Rightarrow> (string \<times> string \<times> string) option" where
  \<comment> \<open>\<^verbatim>\<open>/^(\d{4})-(\d{2})-(\d{2})$/\<close>; the groups are year, month, day\<close>
  "matchIsoDate s =
     (if length s = 10 \<and> list_all isDigit (take 4 s) \<and> s ! 4 = CHR ''-'' \<and>
         list_all isDigit (take 2 (drop 5 s)) \<and> s ! 7 = CHR ''-'' \<and>
         list_all isDigit (drop 8 s)
      then Some (take 4 s, take 2 (drop 5 s), drop 8 s)
      else None)"

definition matchEuroDate :: "string \<Rightarrow> (string \<times> string \<times> string) option" where
  \<comment> \<open>\<^verbatim>\<open>/^(\d{2})\/(\d{2})\/(\d{4})$/\<close>; the groups are day, month, year\<close>
  "matchEuroDate s =
     (if length s = 10 \<and> list_all isDigit (take 2 s) \<and> s ! 2 = CHR ''/'' \<and>
         list_all isDigit (take 2 (drop 3 s)) \<and> s ! 5 = CHR ''/'' \<and>
         list_all isDigit (drop 6 s)
      then Some (take 2 s, take 2 (drop 3 s), drop 6 s)
      else None)"

definition isValidDateComponents :: "int \<Rightarrow> int \<Rightarrow> int \<Rightarrow> bool" where
  "isValidDateComponents year month day =
     (if month < 1 \<or> month > 12 then False
      else if day < 1 \<or> day > 31 then False
      else (let date = newDate year (month - 1) day in
            getFullYear date = year \<and> getMonth date = month - 1 \<and> getDate date = day))"

definition isValidDateStrings :: "string \<Rightarrow> string \<Rightarrow> string \<Rightarrow> bool" where
  \<comment> \<open>\<^verbatim>\<open>isValidDateComponents(parseInt(year), parseInt(month), parseInt(day))\<close>; with a
      \<^verbatim>\<open>NaN\<close> component the comparisons of the constructed date fail\<close>
  "isValidDateStrings year month day =
     (case (parseInt year, parseInt month, parseInt day) of
        (Some y, Some m, Some d) \<Rightarrow> isValidDateComponents y m d
      | _ \<Rightarrow> False)"

definition normalizeDate :: "string \<Rightarrow> string option" where
  "normalizeDate dateStr =
     (if dateStr = [] then None
      else
        (let trimmed = trim dateStr in
         case matchIsoDate trimmed of
           Some (year, month, day) \<Rightarrow>
             if isValidDateStrings year month day then Some trimmed else None
         | None \<Rightarrow>
             (case matchEuroDate trimmed of
                Some (day, month, year) \<Rightarrow>
                  if isValidDateStrings year month day
                  then Some (year @ ''-'' @ padStart2 month @ ''-'' @ padStart2 day)
                  else None
              | None \<Rightarrow> None)))"


definition parseDate :: "string \<Rightarrow> Date option" where
  \<comment> \<open>the last case is not reached: a normalized string has three numeric parts\<close>
  "parseDate dateStr =
     (case normalizeDate dateStr of
        None \<Rightarrow> None
      | Some normalized \<Rightarrow>
          if normalized = [] then None
          else
            (case map Number (split CHR ''-'' normalized) of
               Some year # Some month # Some day # _ \<Rightarrow> Some (newDate year (month - 1) day)
             | _ \<Rightarrow> None))"


definition isDateInDisableRange :: "string \<Rightarrow> string \<Rightarrow> string option \<Rightarrow> bool" where
  "isDateInDisableRange date startDate endDate =
     (if date < startDate then False
      else if truthyStr endDate \<and> date > the endDate then False
      else True)"


lemma Day_MakeDate:
  assumes "0 \<le> w" "w < msPerDay"
  shows "Day (MakeDate n w) = n" "TimeWithinDay (MakeDate n w) = w"
proof -
  have e: "MakeDate n w = w + n * msPerDay" by (simp add: MakeDate_def)
  show "Day (MakeDate n w) = n"
    unfolding Day_def e using assms by (simp add: div_pos_pos_trivial msPerDay_def)
  show "TimeWithinDay (MakeDate n w) = w"
    unfolding TimeWithinDay_def e using assms by (simp add: mod_pos_pos_trivial msPerDay_def)
qed

lemma TimeWithinDay_range: "0 \<le> TimeWithinDay t" "TimeWithinDay t < msPerDay"
  by (simp_all add: TimeWithinDay_def msPerDay_def)




record DateDisableRule =
  id :: int
  shop :: string
  cityId :: "int option"
  startDate :: string
  endDate :: "string option"
  reason :: "string option"





datatype DisableSource = DateStrings "string list" | DateRules "DateDisableRule list"





subsection \<open>City cutoff service\<close>

record DeliveryCity =
  id :: string
  name :: string
  isSpecial :: bool
  cutoffTime :: "string option"

record TimeOfDay =
  hours :: int
  minutes :: int


definition matchTime :: "string \<Rightarrow> (string \<times> string) option" where
  \<comment> \<open>\<^verbatim>\<open>/^(\d{1,2}):(\d{2})$/\<close>; the groups are hours and minutes\<close>
  "matchTime s =
     (if length s = 5 \<and> list_all isDigit (take 2 s) \<and> s ! 2 = CHR '':'' \<and>
         list_all isDigit (drop 3 s)
      then Some (take 2 s, drop 3 s)
      else if length s = 4 \<and> isDigit (s ! 0) \<and> s ! 1 = CHR '':'' \<and> list_all isDigit (drop 2 s)
      then Some (take 1 s, drop 2 s)
      else None)"

definition parseTime :: "string \<Rightarrow> TimeOfDay option" where
  \<comment> \<open>the groups are digits, so both \<open>parseInt\<close> calls return a number\<close>
  "parseTime timeStr =
     (if timeStr = [] then None
      else
        (case matchTime (trim timeStr) of
           None \<Rightarrow> None
         | Some (h, m) \<Rightarrow>
             (case (parseInt h, parseInt m) of
                (Some hh, Some mm) \<Rightarrow>
                  if hh < 0 \<or> hh > 23 \<or> mm < 0 \<or> mm > 59 then None
                  else Some \<lparr>hours = hh, minutes = mm\<rparr>
              | _ \<Rightarrow> None)))"


definition isBeforeCutoff :: "string \<Rightarrow> Date \<Rightarrow> bool" where
  "isBeforeCutoff cutoffTimeArg currentTime =
     (case parseTime cutoffTimeArg of
        None \<Rightarrow> False
      | Some parsed \<Rightarrow>
          (let currentHours = getHours currentTime;
               currentMinutes = getMinutes currentTime
           in if currentHours < hours parsed then True
              else if currentHours = hours parsed \<and> currentMinutes < minutes parsed then True
              else False))"



subsection \<open>Slot availability service\<close>

record TimeSlot =
  id :: int
  shop :: string
  startTime :: string
  endTime :: string
  isActive :: bool
  label :: "string option"

record SlotDisableRule = DateDisableRule +
  timeSlotId :: int

record SlotAvailabilityResult =
  slot :: TimeSlot
  disabled :: bool
  reason :: "string option"

definition isDateInRange :: "string \<Rightarrow> string \<Rightarrow> string option \<Rightarrow> bool" where
  "isDateInRange date startDateArg endDateArg =
     (if date < startDateArg then False
      else if truthyStr endDateArg \<and> date > the endDateArg then False
      else True)"

definition checkSlotActive :: "TimeSlot \<Rightarrow> bool \<times> string option" where
  "checkSlotActive s =
     (if \<not> isActive s then (True, Some ''Slot is inactive'') else (False, None))"

definition checkDateSpecificDisable ::
  "int \<Rightarrow> string \<Rightarrow> SlotDisableRule list \<Rightarrow> bool \<times> string option" where
  "checkDateSpecificDisable slotId date rules =
     (case find (\<lambda>rule. timeSlotId rule = slotId \<and> \<not> truthyNum (cityId rule) \<and>
                         isDateInRange date (startDate rule) (endDate rule)) rules of
        Some dateRule \<Rightarrow>
          (True, Some (if truthyStr (DateDisableRule.reason dateRule)
                       then ''Disabled: '' @ the (DateDisableRule.reason dateRule)
                       else ''Disabled on '' @ date))
      | None \<Rightarrow> (False, None))"

definition checkCityDateDisable ::
  "int \<Rightarrow> string \<Rightarrow> int \<Rightarrow> SlotDisableRule list \<Rightarrow> bool \<times> string option" where
  "checkCityDateDisable slotId date cityIdArg rules =
     (case find (\<lambda>rule. timeSlotId rule = slotId \<and> cityId rule = Some cityIdArg \<and>
                         isDateInRange date (startDate rule) (endDate rule)) rules of
        Some cityDateRule \<Rightarrow>
          (True, Some (if truthyStr (DateDisableRule.reason cityDateRule)
                       then ''Disabled: '' @ the (DateDisableRule.reason cityDateRule)
                       else ''Disabled for this city on '' @ date))
      | None \<Rightarrow> (False, None))"

definition checkSlotAvailability ::
  "TimeSlot \<Rightarrow> string \<Rightarrow> int option \<Rightarrow> SlotDisableRule list \<Rightarrow> SlotAvailabilityResult" where
  "checkSlotAvailability s date cityIdArg rules =
     (let activeCheck = checkSlotActive s in
      if fst activeCheck then \<lparr>slot = s, disabled = True, reason = snd activeCheck\<rparr>
      else
        (let dateCheck = checkDateSpecificDisable (TimeSlot.id s) date rules in
         if fst dateCheck then \<lparr>slot = s, disabled = True, reason = snd dateCheck\<rparr>
         else
           (case cityIdArg of
              Some c \<Rightarrow>
                if c \<noteq> 0
                then (let cityDateCheck = checkCityDateDisable (TimeSlot.id s) date c rules in
                      if fst cityDateCheck
                      then \<lparr>slot = s, disabled = True, reason = snd cityDateCheck\<rparr>
                      else \<lparr>slot = s, disabled = False, reason = None\<rparr>)
                else \<lparr>slot = s, disabled = False, reason = None\<rparr>
            | None \<Rightarrow> \<lparr>slot = s, disabled = False, reason = None\<rparr>)))"

definition getAvailableSlots ::
  "TimeSlot list \<Rightarrow> string \<Rightarrow> int option \<Rightarrow> SlotDisableRule list \<Rightarrow> SlotAvailabilityResult list" where
  "getAvailableSlots slots date cityIdArg rules =
     map (\<lambda>s. checkSlotAvailability s date cityIdArg rules) slots"

definition isSlotAvailable ::
  "int \<Rightarrow> TimeSlot list \<Rightarrow> string \<Rightarrow> int option \<Rightarrow> SlotDisableRule list \<Rightarrow> bool" where
  "isSlotAvailable slotId slots date cityIdArg rules =
     (case find (\<lambda>s. TimeSlot.id s = slotId) slots of
        None \<Rightarrow> False
      | Some s \<Rightarrow> \<not> disabled (checkSlotAvailability s date cityIdArg rules))"

subsection \<open>Checkout eligibility validator\<close>

record CheckoutFields =
  fullName :: string
  phoneNumber :: string
  deliveryAddress :: string
  deliveryDate :: string
  deliveryTimeSlot :: int

record CheckoutValidationResult =
  isValid :: bool
  errors :: "string list"

definition FULL_NAME_REQUIRED :: string where
  "FULL_NAME_REQUIRED = ''Full name is required''"
definition PHONE_NUMBER_REQUIRED :: string where
  "PHONE_NUMBER_REQUIRED = ''Phone number is required''"
definition PHONE_NUMBER_INVALID :: string where
  "PHONE_NUMBER_INVALID = ''Phone number format is invalid''"
definition DELIVERY_ADDRESS_REQUIRED :: string where
  "DELIVERY_ADDRESS_REQUIRED = ''Delivery address is required''"
definition DELIVERY_DATE_REQUIRED :: string where
  "DELIVERY_DATE_REQUIRED = ''Delivery date is required''"
definition DELIVERY_DATE_INVALID :: string where
  "DELIVERY_DATE_INVALID = ''Delivery date format is invalid''"
definition DELIVERY_TIME_SLOT_REQUIRED :: string where
  "DELIVERY_TIME_SLOT_REQUIRED = ''Delivery time slot is required''"

definition isNonEmpty :: "string \<Rightarrow> bool" where
  "isNonEmpty v = (length (trim v) > 0)"

definition validateFullName :: "string \<Rightarrow> string list" where
  "validateFullName v = (if \<not> isNonEmpty v then [FULL_NAME_REQUIRED] else [])"

definition validatePhoneNumber :: "string \<Rightarrow> string list" where
  "validatePhoneNumber v =
     (if \<not> isNonEmpty v then [PHONE_NUMBER_REQUIRED]
      else (let digitsOnly = filter isDigit v in
            if length digitsOnly < 7 then [PHONE_NUMBER_INVALID] else []))"

definition validateDeliveryAddress :: "string \<Rightarrow> string list" where
  "validateDeliveryAddress v = (if \<not> isNonEmpty v then [DELIVERY_ADDRESS_REQUIRED] else [])"

definition validateDeliveryDate :: "string \<Rightarrow> string list" where
  "validateDeliveryDate v =
     (if \<not> isNonEmpty v then [DELIVERY_DATE_REQUIRED]
      else if matchIsoDate (trim v) = None then [DELIVERY_DATE_INVALID]
      else
        (case map Number (split CHR ''-'' v) of
           Some year # Some month # Some day # _ \<Rightarrow>
             (let date = newDate year (month - 1) day;
                  isValidDate = (getFullYear date = year \<and> getMonth date = month - 1 \<and>
                                 getDate date = day)
              in if \<not> isValidDate then [DELIVERY_DATE_INVALID] else [])
         | _ \<Rightarrow> [DELIVERY_DATE_INVALID]))"

definition validateDeliveryTimeSlot :: "int \<Rightarrow> string list" where
  "validateDeliveryTimeSlot v =
     (if v = 0 \<or> v \<le> 0 then [DELIVERY_TIME_SLOT_REQUIRED] else [])"

definition validateCheckout :: "CheckoutFields \<Rightarrow> CheckoutValidationResult" where
  "validateCheckout fieldsArg =
     (let errors0 = [];
          errors1 = errors0 @ validateFullName (fullName fieldsArg);
          errors2 = errors1 @ validatePhoneNumber (phoneNumber fieldsArg);
          errors3 = errors2 @ validateDeliveryAddress (deliveryAddress fieldsArg);
          errors4 = errors3 @ validateDeliveryDate (deliveryDate fieldsArg);
          errors5 = errors4 @ validateDeliveryTimeSlot (deliveryTimeSlot fieldsArg)
      in \<lparr>isValid = (length errors5 = 0), errors = errors5\<rparr>)"

lemma find_None_iff2: "find P xs = None \<longleftrightarrow> (\<forall>x\<in>set xs. \<not> P x)"
  by (induction xs) auto

lemma find_first:
  assumes "i < length xs" "P (xs ! i)" "\<forall>j<i. \<not> P (xs ! j)"
  shows "find P xs = Some (xs ! i)"
  using assms
proof (induction xs arbitrary: i)
  case Nil
  then show ?case by simp
next
  case (Cons x xs)
  show ?case
  proof (cases i)
    case 0
    then show ?thesis using Cons.prems by simp
  next
    case (Suc k)
    have nx: "\<not> P x" using Cons.prems(3) Suc by force
    have "find P xs = Some (xs ! k)"
    proof (rule Cons.IH)
      show "k < length xs" using Cons.prems(1) Suc by simp
      show "P (xs ! k)" using Cons.prems(2) Suc by simp
      show "\<forall>j<k. \<not> P (xs ! j)"
      proof (intro allI impI)
        fix j assume "j < k"
        then have "Suc j < i" using Suc by simp
        then have "\<not> P ((x # xs) ! Suc j)" using Cons.prems(3) by blast
        then show "\<not> P (xs ! j)" by simp
      qed
    qed
    then show ?thesis using nx Suc by simp
  qed
qed

lemma matchTime_intro:
  assumes "length hs = 1 \<or> length hs = 2" "length ms = 2" "list_all isDigit hs" "list_all isDigit ms"
  shows "matchTime (hs @ '':'' @ ms) = Some (hs, ms)"
proof (cases "length hs = 2")
  case True
  then show ?thesis using assms by (simp add: matchTime_def nth_append)
next
  case False
  then have l: "length hs = 1" using assms(1) by simp
  then obtain h where hs: "hs = [h]" by (cases hs) auto
  have "\<not> isDigit CHR '':''" by (simp add: isDigit_def)
  then show ?thesis using assms hs by (auto simp: matchTime_def nth_append)
qed

lemma matchTime_elim:
  assumes "matchTime s = Some (hs, ms)"
  shows "hs @ '':'' @ ms = s \<and> (length hs = 1 \<or> length hs = 2) \<and> length ms = 2 \<and>
         list_all isDigit hs \<and> list_all isDigit ms"
proof (cases "length s = 5 \<and> list_all isDigit (take 2 s) \<and> s ! 2 = CHR '':'' \<and>
         list_all isDigit (drop 3 s)")
  case True
  then have e: "hs = take 2 s" "ms = drop 3 s" using assms by (simp_all add: matchTime_def)
  have d: "take 2 s @ s ! 2 # drop (Suc 2) s = s"
    using True id_take_nth_drop[of 2 s] by simp
  have "hs @ '':'' @ ms = take 2 s @ s ! 2 # drop (Suc 2) s"
    unfolding e using True by (simp add: numeral_3_eq_3)
  then have "hs @ '':'' @ ms = s" using d by (rule trans)
  moreover have "length hs = 2" "length ms = 2" "list_all isDigit hs" "list_all isDigit ms"
    unfolding e using True by simp_all
  ultimately show ?thesis by blast
next
  case False
  then have c: "length s = 4" "isDigit (s ! 0)" "s ! 1 = CHR '':''" "list_all isDigit (drop 2 s)"
    and e: "hs = take 1 s" "ms = drop 2 s"
    using assms by (auto simp: matchTime_def split: if_splits)
  have d: "take 1 s @ s ! 1 # drop (Suc 1) s = s"
    using c id_take_nth_drop[of 1 s] by simp
  have "hs @ '':'' @ ms = take 1 s @ s ! 1 # drop (Suc 1) s"
    unfolding e using c by (simp add: numeral_2_eq_2)
  then have "hs @ '':'' @ ms = s" using d by (rule trans)
  moreover have "take 1 s = [s ! 0]" using c(1) by (cases s) auto
  then have "length hs = 1" "list_all isDigit hs" unfolding e using c by simp_all
  moreover have "length ms = 2" "list_all isDigit ms" unfolding e using c by simp_all
  ultimately show ?thesis by blast
qed

definition timeOfDayString :: "string \<Rightarrow> int \<Rightarrow> int \<Rightarrow> bool" where
  \<comment> \<open>\<open>s\<close> is one or two digits, a colon and two digits, and denotes the hour \<open>h\<close> from 0 to
      23 and the minute \<open>m\<close> from 0 to 59\<close>
  "timeOfDayString s h m =
     (\<exists>hs ms. s = hs @ '':'' @ ms \<and> (length hs = 1 \<or> length hs = 2) \<and> length ms = 2 \<and>
        list_all isDigit hs \<and> list_all isDigit ms \<and>
        h = int (digitsValue hs) \<and> m = int (digitsValue ms) \<and> h \<le> 23 \<and> m \<le> 59)"

lemma trim_Nil: "trim [] = []"
  by (simp add: trim_def)

lemma parseTime_intro:
  assumes "timeOfDayString (trim c) h m"
  shows "parseTime c = Some \<lparr>hours = h, minutes = m\<rparr>"
proof -
  from assms obtain hs ms where t: "trim c = hs @ '':'' @ ms"
    and l: "length hs = 1 \<or> length hs = 2" "length ms = 2"
    and d: "list_all isDigit hs" "list_all isDigit ms"
    and v: "h = int (digitsValue hs)" "m = int (digitsValue ms)" "h \<le> 23" "m \<le> 59"
    unfolding timeOfDayString_def by blast
  have ne: "c \<noteq> []" using t trim_Nil by auto
  have mt: "matchTime (trim c) = Some (hs, ms)" unfolding t using l d by (rule matchTime_intro)
  have "hs \<noteq> []" "ms \<noteq> []" using l by auto
  then have p: "parseInt hs = Some h" "parseInt ms = Some m"
    using d v by (simp_all add: parseInt_digits)
  have "0 \<le> h" "0 \<le> m" using v by simp_all
  then show ?thesis using ne mt p v by (simp add: parseTime_def)
qed

lemma parseTime_elim:
  assumes "parseTime c = Some p"
  shows "timeOfDayString (trim c) (hours p) (minutes p)"
proof -
  from assms obtain hs ms where mt: "matchTime (trim c) = Some (hs, ms)"
    by (auto simp: parseTime_def split: if_splits option.splits)
  from matchTime_elim[OF mt] have t: "hs @ '':'' @ ms = trim c"
    and l: "length hs = 1 \<or> length hs = 2" "length ms = 2"
    and d: "list_all isDigit hs" "list_all isDigit ms" by blast+
  have "hs \<noteq> []" "ms \<noteq> []" using l by auto
  then have pi: "parseInt hs = Some (int (digitsValue hs))" "parseInt ms = Some (int (digitsValue ms))"
    using d by (simp_all add: parseInt_digits)
  have r: "int (digitsValue hs) \<le> 23 \<and> int (digitsValue ms) \<le> 59 \<and>
           p = \<lparr>hours = int (digitsValue hs), minutes = int (digitsValue ms)\<rparr>"
    using assms mt pi by (auto simp: parseTime_def split: if_splits)
  show ?thesis unfolding timeOfDayString_def
    using t[symmetric] l d r by (intro exI[of _ hs] exI[of _ ms]) simp
qed

lemma parseTime_None: "parseTime c = None \<longleftrightarrow> (\<forall>h m. \<not> timeOfDayString (trim c) h m)"
proof
  assume n: "parseTime c = None"
  show "\<forall>h m. \<not> timeOfDayString (trim c) h m"
  proof (intro allI notI)
    fix h m assume "timeOfDayString (trim c) h m"
    then have "parseTime c = Some \<lparr>hours = h, minutes = m\<rparr>" by (rule parseTime_intro)
    then show False using n by simp
  qed
next
  assume a: "\<forall>h m. \<not> timeOfDayString (trim c) h m"
  show "parseTime c = None"
  proof (cases "parseTime c")
    case None
    then show ?thesis .
  next
    case (Some p)
    then have "timeOfDayString (trim c) (hours p) (minutes p)" by (rule parseTime_elim)
    then show ?thesis using a by blast
  qed
qed

definition civilDay :: "Date \<Rightarrow> int" where
  \<comment> \<open>the number of the civil day of an instant, counted from the epoch\<close>
  "civilDay d = Day (timeValue d)"

definition midnightOfDay :: "int \<Rightarrow> Date" where
  \<comment> \<open>local midnight of the civil day with number \<open>n\<close>\<close>
  "midnightOfDay n = Date (MakeDate n 0)"





lemma civilDay_midnight: "civilDay (midnightOfDay n) = n"
  by (simp add: civilDay_def midnightOfDay_def Day_MakeDate(1) msPerDay_def)

definition isoDateString :: "string \<Rightarrow> string \<Rightarrow> string \<Rightarrow> string \<Rightarrow> bool" where
  \<comment> \<open>\<open>s\<close> is \<^verbatim>\<open>YYYY-MM-DD\<close> with the digits \<open>y\<close>, \<open>m\<close>, \<open>d\<close>\<close>
  "isoDateString s y m d =
     (s = y @ ''-'' @ m @ ''-'' @ d \<and> length y = 4 \<and> length m = 2 \<and> length d = 2 \<and>
      list_all isDigit y \<and> list_all isDigit m \<and> list_all isDigit d)"

definition euroDateString :: "string \<Rightarrow> string \<Rightarrow> string \<Rightarrow> string \<Rightarrow> bool" where
  \<comment> \<open>\<open>s\<close> is \<^verbatim>\<open>DD/MM/YYYY\<close> with the digits \<open>d\<close>, \<open>m\<close>, \<open>y\<close>\<close>
  "euroDateString s d m y =
     (s = d @ ''/'' @ m @ ''/'' @ y \<and> length y = 4 \<and> length m = 2 \<and> length d = 2 \<and>
      list_all isDigit y \<and> list_all isDigit m \<and> list_all isDigit d)"

definition realDate :: "string \<Rightarrow> string \<Rightarrow> string \<Rightarrow> bool" where
  \<comment> \<open>the digits denote a month from 1 to 12 and a day from 1 to 31, and the date
      constructed from them has the same year, month and day\<close>
  "realDate y m d =
     (let yn = int (digitsValue y); mn = int (digitsValue m); dn = int (digitsValue d) in
      1 \<le> mn \<and> mn \<le> 12 \<and> 1 \<le> dn \<and> dn \<le> 31 \<and>
      getFullYear (newDate yn (mn - 1) dn) = yn \<and>
      getMonth (newDate yn (mn - 1) dn) = mn - 1 \<and>
      getDate (newDate yn (mn - 1) dn) = dn)"

lemma matchIsoDate_intro:
  assumes "isoDateString s y m d"
  shows "matchIsoDate s = Some (y, m, d)"
  using assms by (simp add: isoDateString_def matchIsoDate_def nth_append)

lemma take_drop_3parts:
  assumes "a + Suc b < length s"
  shows "take a s @ s ! a # take b (drop (Suc a) s) @ s ! (a + Suc b) # drop (Suc (a + Suc b)) s = s"
proof -
  have la: "a < length s" using assms by simp
  have 1: "take a s @ s ! a # drop (Suc a) s = s"
    using la id_take_nth_drop[of a s] by simp
  have l: "b < length (drop (Suc a) s)" using assms by simp
  have 2: "take b (drop (Suc a) s) @ drop (Suc a) s ! b # drop (Suc b) (drop (Suc a) s) = drop (Suc a) s"
    using id_take_nth_drop[OF l] by simp
  have 3: "drop (Suc a) s ! b = s ! (a + Suc b)" using assms by (simp add: add.commute)
  have 4: "drop (Suc b) (drop (Suc a) s) = drop (Suc (a + Suc b)) s" by (simp add: add.commute)
  have "take a s @ s ! a # (take b (drop (Suc a) s) @ s ! (a + Suc b) # drop (Suc (a + Suc b)) s) = s"
    using 1 2 3 4 by metis
  then show ?thesis by simp
qed

lemma matchIsoDate_elim:
  assumes "matchIsoDate s = Some (y, m, d)"
  shows "isoDateString s y m d"
proof -
  from assms have c: "length s = 10" "list_all isDigit (take 4 s)" "s ! 4 = CHR ''-''"
    "list_all isDigit (take 2 (drop 5 s))" "s ! 7 = CHR ''-''" "list_all isDigit (drop 8 s)"
    and e: "y = take 4 s" "m = take 2 (drop 5 s)" "d = drop 8 s"
    by (auto simp: matchIsoDate_def split: if_splits)
  have "take 4 s @ s ! 4 # take 2 (drop (Suc 4) s) @ s ! (4 + Suc 2) # drop (Suc (4 + Suc 2)) s = s"
    using c(1) by (intro take_drop_3parts) simp
  then have "y @ ''-'' @ m @ ''-'' @ d = s" unfolding e using c by (simp add: eval_nat_numeral)
  then show ?thesis unfolding isoDateString_def using c e by auto
qed

lemma matchEuroDate_intro:
  assumes "euroDateString s d m y"
  shows "matchEuroDate s = Some (d, m, y)"
  using assms by (simp add: euroDateString_def matchEuroDate_def nth_append)

lemma matchEuroDate_elim:
  assumes "matchEuroDate s = Some (d, m, y)"
  shows "euroDateString s d m y"
proof -
  from assms have c: "length s = 10" "list_all isDigit (take 2 s)" "s ! 2 = CHR ''/''"
    "list_all isDigit (take 2 (drop 3 s))" "s ! 5 = CHR ''/''" "list_all isDigit (drop 6 s)"
    and e: "d = take 2 s" "m = take 2 (drop 3 s)" "y = drop 6 s"
    by (auto simp: matchEuroDate_def split: if_splits)
  have "take 2 s @ s ! 2 # take 2 (drop (Suc 2) s) @ s ! (2 + Suc 2) # drop (Suc (2 + Suc 2)) s = s"
    using c(1) by (intro take_drop_3parts) simp
  then have "d @ ''/'' @ m @ ''/'' @ y = s" unfolding e using c by (simp add: eval_nat_numeral)
  then show ?thesis unfolding euroDateString_def using c e by auto
qed

lemma iso_not_euro: "isoDateString s y m d \<Longrightarrow> matchEuroDate s = None"
  by (auto simp: isoDateString_def matchEuroDate_def nth_append isDigit_def)

lemma euro_not_iso: "euroDateString s d m y \<Longrightarrow> matchIsoDate s = None"
  by (auto simp: euroDateString_def matchIsoDate_def nth_append isDigit_def)

lemma isValidDateStrings_realDate:
  assumes "length y = 4" "length m = 2" "length d = 2"
    "list_all isDigit y" "list_all isDigit m" "list_all isDigit d"
  shows "isValidDateStrings y m d = realDate y m d"
proof -
  have "y \<noteq> []" "m \<noteq> []" "d \<noteq> []" using assms by auto
  then have p: "parseInt y = Some (int (digitsValue y))" "parseInt m = Some (int (digitsValue m))"
    "parseInt d = Some (int (digitsValue d))" using assms by (simp_all add: parseInt_digits)
  show ?thesis
    by (auto simp: isValidDateStrings_def p isValidDateComponents_def realDate_def Let_def)
qed

lemma padStart2_two: "length s = 2 \<Longrightarrow> padStart2 s = s"
  by (simp add: padStart2_def)

lemma normalizeDate_iso:
  assumes "isoDateString (trim s) y m d"
  shows "normalizeDate s = (if realDate y m d then Some (y @ ''-'' @ m @ ''-'' @ d) else None)"
proof -
  have ne: "s \<noteq> []" using assms trim_Nil by (auto simp: isoDateString_def)
  have mi: "matchIsoDate (trim s) = Some (y, m, d)" using assms by (rule matchIsoDate_intro)
  have v: "isValidDateStrings y m d = realDate y m d"
    using assms by (intro isValidDateStrings_realDate) (simp_all add: isoDateString_def)
  have t: "trim s = y @ ''-'' @ m @ ''-'' @ d" using assms by (simp add: isoDateString_def)
  have "normalizeDate s = (if realDate y m d then Some (trim s) else None)"
    by (simp add: normalizeDate_def ne mi v Let_def)
  then show ?thesis by (simp only: t)
qed

lemma normalizeDate_euro:
  assumes "euroDateString (trim s) d m y"
  shows "normalizeDate s = (if realDate y m d then Some (y @ ''-'' @ m @ ''-'' @ d) else None)"
proof -
  have ne: "s \<noteq> []" using assms trim_Nil by (auto simp: euroDateString_def)
  have mi: "matchIsoDate (trim s) = None" using assms by (rule euro_not_iso)
  have me: "matchEuroDate (trim s) = Some (d, m, y)" using assms by (rule matchEuroDate_intro)
  have l: "length m = 2" "length d = 2" using assms by (simp_all add: euroDateString_def)
  have v: "isValidDateStrings y m d = realDate y m d"
    using assms by (intro isValidDateStrings_realDate) (simp_all add: euroDateString_def)
  show ?thesis by (simp add: normalizeDate_def ne mi me v Let_def padStart2_two l)
qed

lemma normalizeDate_Some_elim:
  assumes "normalizeDate s = Some r"
  shows "\<exists>y m d. (isoDateString (trim s) y m d \<or> euroDateString (trim s) d m y) \<and> realDate y m d"
proof (cases "matchIsoDate (trim s)")
  case (Some g)
  obtain y m d where g: "g = (y, m, d)" by (cases g) auto
  have i: "isoDateString (trim s) y m d" using Some g matchIsoDate_elim by simp
  then have "realDate y m d" using assms normalizeDate_iso[OF i] by (simp split: if_splits)
  then show ?thesis using i by blast
next
  case None
  then obtain g where me: "matchEuroDate (trim s) = Some g"
    using assms by (cases "matchEuroDate (trim s)") (auto simp: normalizeDate_def Let_def split: if_splits)
  obtain d m y where g: "g = (d, m, y)" by (cases g) auto
  have i: "euroDateString (trim s) d m y" using me g matchEuroDate_elim by simp
  then have "realDate y m d" using assms normalizeDate_euro[OF i] by (simp split: if_splits)
  then show ?thesis using i by blast
qed

definition daysInMonth :: "int \<Rightarrow> int \<Rightarrow> int" where
  \<comment> \<open>the length of month \<open>m\<close> (1 to 12) of year \<open>y\<close> in the Gregorian calendar\<close>
  "daysInMonth y m =
     (if m = 2 then (if InLeapYear y then 29 else 28)
      else if m = 4 \<or> m = 6 \<or> m = 9 \<or> m = 11 then 30 else 31)"

lemma month_cases:
  assumes "1 \<le> (m::int)" "m \<le> 12"
  shows "m = 1 \<or> m = 2 \<or> m = 3 \<or> m = 4 \<or> m = 5 \<or> m = 6 \<or> m = 7 \<or> m = 8 \<or> m = 9 \<or>
         m = 10 \<or> m = 11 \<or> m = 12"
  using assms by arith

lemma MakeDay_month: 
  assumes "1 \<le> m" "m \<le> 12"
  shows "MakeDay y (m - 1) d = DayFromYear y + monthStart (m - 1) (InLeapYear y) + d - 1"
proof -
  have "(m - 1) div 12 = 0" "(m - 1) mod 12 = m - 1"
    using assms by (simp_all add: div_pos_pos_trivial mod_pos_pos_trivial)
  then show ?thesis by (simp add: MakeDay_def Let_def)
qed

lemma civil_of_offset:
  assumes "0 \<le> w" "w < DaysInYear y"
  shows "YearFromDay (DayFromYear y + w) = y" "DayWithinYear (DayFromYear y + w) = w"
proof -
  show y: "YearFromDay (DayFromYear y + w) = y"
    using assms DayFromYear_Suc[of y] by (intro YearFromDay_unique) simp_all
  show "DayWithinYear (DayFromYear y + w) = w" by (simp add: DayWithinYear_def y)
qed

lemma civil_of_MakeDay:
  assumes m: "1 \<le> m" "m \<le> 12" and d: "1 \<le> d" "d \<le> daysInMonth y m"
  shows "YearFromDay (MakeDay y (m - 1) d) = y \<and> MonthFromDay (MakeDay y (m - 1) d) = m - 1 \<and>
         DateFromDay (MakeDay y (m - 1) d) = d"
proof -
  define w where "w = monthStart (m - 1) (InLeapYear y) + d - 1"
  have D: "MakeDay y (m - 1) d = DayFromYear y + w"
    unfolding w_def MakeDay_month[OF m] by simp
  have r: "0 \<le> w \<and> w < DaysInYear y"
    using month_cases[OF m] d
    apply (elim disjE)
    apply (simp_all add: w_def monthStart_def daysInMonth_def DaysInYear_def split: if_splits)
    done
  have Y: "YearFromDay (DayFromYear y + w) = y" and W: "DayWithinYear (DayFromYear y + w) = w"
    using civil_of_offset[of w y] r by simp_all
  have M: "MonthFromDay (DayFromYear y + w) = m - 1"
    unfolding MonthFromDay_def Let_def Y W
    using month_cases[OF m] d
    apply (elim disjE)
    apply (simp_all add: w_def monthStart_def daysInMonth_def split: if_splits)
    done
  have "DateFromDay (DayFromYear y + w) = d"
    unfolding DateFromDay_def Y W M by (simp add: w_def)
  then show ?thesis unfolding D using Y M by simp
qed

lemma daysInMonth_le: "daysInMonth y m \<le> 31"
  by (simp add: daysInMonth_def)

lemma month_interval:
  assumes "MonthFromDay D = k"
  shows "monthStart k (InLeapYear (YearFromDay D)) \<le> DayWithinYear D \<and>
         DayWithinYear D <
           monthStart k (InLeapYear (YearFromDay D)) + daysInMonth (YearFromDay D) (k + 1)"
proof -
  have k: "1 \<le> k + 1" "k + 1 \<le> 12" using MonthFromDay_range[of D] assms by simp_all
  note w = DayWithinYear_range[of D]
  show ?thesis
    using month_cases[OF k] assms w
    apply (elim disjE)
    apply (simp_all add: MonthFromDay_def Let_def monthStart_def daysInMonth_def DaysInYear_def
                   split: if_splits)
    done
qed

lemma YearFromDay_ge: "DayFromYear y \<le> D \<Longrightarrow> y \<le> YearFromDay D"
proof (rule ccontr)
  assume a: "DayFromYear y \<le> D" and "\<not> y \<le> YearFromDay D"
  then have "YearFromDay D + 1 \<le> y" by simp
  then have "DayFromYear (YearFromDay D + 1) \<le> DayFromYear y" by (rule DayFromYear_mono)
  then show False using YearFromDay_bounds(2)[of D] a by linarith
qed

lemma monthStart_nonneg: "0 \<le> m \<Longrightarrow> 0 \<le> monthStart m l"
  by (simp add: monthStart_def)

lemma getters_newDate:
  "getFullYear (newDate y m d) = YearFromDay (MakeDay (MakeFullYear y) m d)"
  "getMonth (newDate y m d) = MonthFromDay (MakeDay (MakeFullYear y) m d)"
  "getDate (newDate y m d) = DateFromDay (MakeDay (MakeFullYear y) m d)"
  by (simp_all add: getFullYear_def getMonth_def getDate_def newDate_def Day_MakeDate(1)
        msPerDay_def)

lemma isValidDateComponents_calendar:
  "isValidDateComponents y m d \<longleftrightarrow>
     1 \<le> m \<and> m \<le> 12 \<and> 1 \<le> d \<and> d \<le> daysInMonth y m \<and> \<not> (0 \<le> y \<and> y \<le> 99)"
proof
  assume r: "1 \<le> m \<and> m \<le> 12 \<and> 1 \<le> d \<and> d \<le> daysInMonth y m \<and> \<not> (0 \<le> y \<and> y \<le> 99)"
  then have Y: "MakeFullYear y = y" by (simp add: MakeFullYear_def)
  have "d \<le> 31" using r daysInMonth_le[of y m] by linarith
  moreover have "YearFromDay (MakeDay y (m - 1) d) = y \<and> MonthFromDay (MakeDay y (m - 1) d) = m - 1 \<and>
         DateFromDay (MakeDay y (m - 1) d) = d"
    using r by (intro civil_of_MakeDay) simp_all
  ultimately show "isValidDateComponents y m d"
    using r by (simp add: isValidDateComponents_def Let_def getters_newDate Y)
next
  assume v: "isValidDateComponents y m d"
  then have m: "1 \<le> m" "m \<le> 12" and d: "1 \<le> d" "d \<le> 31"
    by (auto simp: isValidDateComponents_def split: if_splits)
  define Y where "Y = MakeFullYear y"
  define D where "D = MakeDay Y (m - 1) d"
  have g: "YearFromDay D = y" "MonthFromDay D = m - 1" "DateFromDay D = d"
    using v m d unfolding D_def Y_def
    by (simp_all add: isValidDateComponents_def Let_def getters_newDate)
  have De: "D = DayFromYear Y + monthStart (m - 1) (InLeapYear Y) + d - 1"
    unfolding D_def by (rule MakeDay_month[OF m])
  have "0 \<le> monthStart (m - 1) (InLeapYear Y)" using m by (intro monthStart_nonneg) simp
  then have "DayFromYear Y \<le> D" using De d by linarith
  then have "Y \<le> y" using YearFromDay_ge[of Y D] g by simp
  then have ny: "\<not> (0 \<le> y \<and> y \<le> 99)" unfolding Y_def MakeFullYear_def by (simp split: if_splits)
  then have Yy: "Y = y" unfolding Y_def by (simp add: MakeFullYear_def)
  have "DayWithinYear D = monthStart (m - 1) (InLeapYear y) + d - 1"
    unfolding DayWithinYear_def g using De Yy by simp
  moreover have "DayWithinYear D < monthStart (m - 1) (InLeapYear y) + daysInMonth y (m - 1 + 1)"
    using month_interval[OF g(2)] g(1) by simp
  ultimately have "d \<le> daysInMonth y m" by simp
  then show "1 \<le> m \<and> m \<le> 12 \<and> 1 \<le> d \<and> d \<le> daysInMonth y m \<and> \<not> (0 \<le> y \<and> y \<le> 99)"
    using m d ny by simp
qed

lemma realDate_calendar:
  "realDate y m d \<longleftrightarrow>
     1 \<le> int (digitsValue m) \<and> int (digitsValue m) \<le> 12 \<and> 1 \<le> int (digitsValue d) \<and>
     int (digitsValue d) \<le> daysInMonth (int (digitsValue y)) (int (digitsValue m)) \<and>
     99 < int (digitsValue y)"
proof -
  have "realDate y m d =
          isValidDateComponents (int (digitsValue y)) (int (digitsValue m)) (int (digitsValue d))"
    by (auto simp: realDate_def isValidDateComponents_def Let_def)
  then show ?thesis unfolding isValidDateComponents_calendar by auto
qed

definition coversDate :: "'a DateDisableRule_scheme \<Rightarrow> string \<Rightarrow> bool" where
  \<comment> \<open>the range of the rule covers the date, as \<open>isDateInRange\<close> decides it\<close>
  "coversDate r date = isDateInRange date (startDate r) (endDate r)"


definition cityDateRule :: "TimeSlot \<Rightarrow> string \<Rightarrow> int \<Rightarrow> SlotDisableRule \<Rightarrow> bool" where
  \<comment> \<open>a rule for this slot and the city \<open>c\<close> that covers the date\<close>
  "cityDateRule s date c r =
     (timeSlotId r = TimeSlot.id s \<and> cityId r = Some c \<and> coversDate r date)"











lemma coversDate_range:
  "coversDate r date \<longleftrightarrow>
     startDate r \<le> date \<and>
     (case endDate r of None \<Rightarrow> True | Some e \<Rightarrow> e = [] \<or> date \<le> e)"
  by (auto simp: coversDate_def isDateInRange_def truthyStr_def split: option.splits)

definition formatDay :: "int \<Rightarrow> string" where
  \<comment> \<open>the string \<open>formatDateToString\<close> gives for the civil day with number \<open>n\<close>\<close>
  "formatDay n =
     String (YearFromDay n) @ ''-'' @ padStart2 (String (MonthFromDay n + 1)) @ ''-'' @
     padStart2 (String (DateFromDay n))"


lemma digit_nth: "k < 10 \<Longrightarrow> isDigit (''0123456789'' ! k) \<and> digitValue (''0123456789'' ! k) = k"
proof -
  assume "k < 10"
  then have "k = 0 \<or> k = 1 \<or> k = 2 \<or> k = 3 \<or> k = 4 \<or> k = 5 \<or> k = 6 \<or> k = 7 \<or> k = 8 \<or> k = 9"
    by arith
  then show ?thesis
    by (elim disjE) (simp_all add: isDigit_def digitValue_def)
qed

lemma digitsValue_snoc: "digitsValue (ds @ [c]) = 10 * digitsValue ds + digitValue c"
  by (simp add: digitsValue_def)

lemma digitsOf_props: "digitsValue (digitsOf n) = n \<and> list_all isDigit (digitsOf n) \<and> digitsOf n \<noteq> []"
proof (induction n rule: digitsOf.induct)
  case (1 n)
  show ?case
  proof (cases "n < 10")
    case True
    then have e: "digitsOf n = [''0123456789'' ! n]" by (subst digitsOf.simps) simp
    show ?thesis unfolding e using digit_nth[OF True] by (simp add: digitsValue_def)
  next
    case False
    then have e: "digitsOf n = digitsOf (n div 10) @ [''0123456789'' ! (n mod 10)]"
      by (subst digitsOf.simps) simp
    have m: "n mod 10 < 10" by simp
    show ?thesis unfolding e using "1.IH"[OF False] digit_nth[OF m]
      by (simp add: digitsValue_snoc)
  qed
qed


lemma digitsOf_small:
  "n < 10 \<Longrightarrow> digitsOf n = [''0123456789'' ! n]"
  "10 \<le> n \<Longrightarrow> n < 100 \<Longrightarrow> digitsOf n = [''0123456789'' ! (n div 10), ''0123456789'' ! (n mod 10)]"
proof -
  show 1: "digitsOf n = [''0123456789'' ! n]" if "n < 10" for n
    using that by (subst digitsOf.simps) simp
  assume "10 \<le> n" "n < 100"
  then have "n div 10 < 10" by simp
  then have "digitsOf (n div 10) = [''0123456789'' ! (n div 10)]" by (rule 1)
  then show "digitsOf n = [''0123456789'' ! (n div 10), ''0123456789'' ! (n mod 10)]"
    using \<open>10 \<le> n\<close> by (subst digitsOf.simps) simp
qed

lemma padStart2_String:
  assumes "0 \<le> k" "k \<le> 99"
  shows "length (padStart2 (String k)) = 2" "int (digitsValue (padStart2 (String k))) = k"
proof -
  have s: "String k = digitsOf (nat k)" using assms by (simp add: String_def)
  have v: "digitsValue (digitsOf (nat k)) = nat k" using digitsOf_props by blast
  have z: "digitsValue (CHR ''0'' # ds) = digitsValue ds" for ds
  proof -
    have "foldl (\<lambda>acc c. 10 * acc + digitValue c) 0 (CHR ''0'' # ds) =
          foldl (\<lambda>acc c. 10 * acc + digitValue c) 0 ds"
      by (simp add: digitValue_def isDigit_def)
    then show ?thesis by (simp add: digitsValue_def)
  qed
  show "length (padStart2 (String k)) = 2"
  proof (cases "nat k < 10")
    case True
    then show ?thesis by (simp add: s digitsOf_small(1) padStart2_def)
  next
    case False
    then have "10 \<le> nat k" "nat k < 100" using assms by simp_all
    then show ?thesis by (simp add: s digitsOf_small(2) padStart2_def)
  qed
  show "int (digitsValue (padStart2 (String k))) = k"
  proof (cases "nat k < 10")
    case True
    then have "padStart2 (String k) = CHR ''0'' # digitsOf (nat k)"
      by (simp add: s digitsOf_small(1) padStart2_def)
    then show ?thesis using v z assms by simp
  next
    case False
    then have "10 \<le> nat k" "nat k < 100" using assms by simp_all
    then have "padStart2 (String k) = digitsOf (nat k)"
      by (simp add: s digitsOf_small(2) padStart2_def)
    then show ?thesis using v assms by simp
  qed
qed





lemma newDate_midnight: "newDate y m d = midnightOfDay (MakeDay (MakeFullYear y) m d)"
  by (simp add: newDate_def midnightOfDay_def)


definition dayOfString :: "string \<Rightarrow> int option" where
  \<comment> \<open>the civil day a date string denotes, when \<open>parseDate\<close> accepts it\<close>
  "dayOfString s = map_option civilDay (parseDate s)"





lemma trim_id:
  assumes "s \<noteq> []" "\<not> isWhiteSpace (hd s)" "\<not> isWhiteSpace (last s)"
  shows "trim s = s"
proof -
  have 1: "dropWhile isWhiteSpace s = s" using assms(1,2) by (cases s) auto
  define r where "r = rev s"
  have "r \<noteq> []" "hd r = last s" unfolding r_def using assms(1) by (simp_all add: hd_rev)
  then have "dropWhile isWhiteSpace r = r" using assms(3) by (cases r) auto
  then have 2: "dropWhile isWhiteSpace (rev s) = rev s" unfolding r_def .
  show ?thesis by (simp add: trim_def 1 2)
qed

lemma trim_digits:
  assumes "ds \<noteq> []" "list_all isDigit ds"
  shows "trim ds = ds"
proof -
  have "isDigit (hd ds)" using assms by (cases ds) auto
  moreover have "isDigit (last ds)" using assms by (simp add: list_all_iff)
  ultimately show ?thesis using assms(1) by (intro trim_id) (auto dest: isDigit_not_ws)
qed

lemma trim_iso:
  assumes "isoDateString n y m d"
  shows "trim n = n"
proof -
  have e: "n = y @ ''-'' @ m @ ''-'' @ d" and l: "length y = 4" "length d = 2"
    and dg: "list_all isDigit y" "list_all isDigit d"
    using assms by (simp_all add: isoDateString_def)
  have y: "y \<noteq> []" and d: "d \<noteq> []" using l by auto
  have "hd n = hd y" using y e by simp
  moreover have "isDigit (hd y)" using y dg by (cases y) auto
  moreover have "last n = last d" using d e by simp
  moreover have "isDigit (last d)" using d dg by (simp add: list_all_iff)
  moreover have "n \<noteq> []" using e by simp
  ultimately show ?thesis by (intro trim_id) (auto dest: isDigit_not_ws)
qed

lemma normalizeDate_form:
  assumes "normalizeDate s = Some n"
  shows "\<exists>y m d. isoDateString n y m d \<and> realDate y m d"
proof -
  from normalizeDate_Some_elim[OF assms] obtain y m d
    where f: "isoDateString (trim s) y m d \<or> euroDateString (trim s) d m y" and r: "realDate y m d"
    by blast
  have "normalizeDate s = Some (y @ ''-'' @ m @ ''-'' @ d)"
  proof (cases "isoDateString (trim s) y m d")
    case True
    then show ?thesis using r by (simp add: normalizeDate_iso)
  next
    case False
    then have "euroDateString (trim s) d m y" using f by simp
    then show ?thesis using r by (simp add: normalizeDate_euro)
  qed
  then have n: "y @ ''-'' @ m @ ''-'' @ d = n" using assms by simp
  have l: "length y = 4 \<and> length m = 2 \<and> length d = 2 \<and>
           list_all isDigit y \<and> list_all isDigit m \<and> list_all isDigit d"
    using f by (auto simp: isoDateString_def euroDateString_def)
  have "isoDateString n y m d"
    unfolding isoDateString_def using n[symmetric] l by blast
  then show ?thesis using r by blast
qed

lemma normalizeDate_idem:
  assumes "normalizeDate s = Some n"
  shows "normalizeDate n = Some n" "n \<noteq> []"
proof -
  from normalizeDate_form[OF assms] obtain y m d
    where i: "isoDateString n y m d" and r: "realDate y m d" by blast
  have t: "trim n = n" using i by (rule trim_iso)
  have "isoDateString (trim n) y m d" using i t by simp
  then have "normalizeDate n = Some (y @ ''-'' @ m @ ''-'' @ d)"
    using r by (simp add: normalizeDate_iso)
  then show "normalizeDate n = Some n" using i by (simp add: isoDateString_def)
  show "n \<noteq> []" using i by (auto simp: isoDateString_def)
qed

lemma split_no_sep: "c \<notin> set a \<Longrightarrow> split c a = [a]"
  by (induction a) auto

lemma split_append: "c \<notin> set a \<Longrightarrow> split c (a @ c # rest) = a # split c rest"
  by (induction a) (auto split: list.splits)

lemma digits_no_hyphen: "list_all isDigit ds \<Longrightarrow> CHR ''-'' \<notin> set ds"
proof
  assume a: "list_all isDigit ds" and "CHR ''-'' \<in> set ds"
  then have "isDigit CHR ''-''" by (simp add: list_all_iff)
  then show False by (simp add: isDigit_def)
qed

lemma Number_digits:
  assumes "ds \<noteq> []" "list_all isDigit ds"
  shows "Number ds = Some (int (digitsValue ds))"
proof -
  have t: "trim ds = ds" using assms by (rule trim_digits)
  show ?thesis unfolding Number_def t Let_def using assms by simp
qed

lemma parseDate_iso:
  assumes "isoDateString n y m d" "normalizeDate n = Some n"
  shows "parseDate n =
           Some (newDate (int (digitsValue y)) (int (digitsValue m) - 1) (int (digitsValue d)))"
proof -
  have e: "n = y @ CHR ''-'' # m @ CHR ''-'' # d" and l: "length y = 4" "length m = 2" "length d = 2"
    and dg: "list_all isDigit y" "list_all isDigit m" "list_all isDigit d"
    using assms(1) by (simp_all add: isoDateString_def)
  have ne: "y \<noteq> []" "m \<noteq> []" "d \<noteq> []" "n \<noteq> []" using l e by auto
  have "split CHR ''-'' n = [y, m, d]"
    unfolding e using dg by (simp add: split_append split_no_sep digits_no_hyphen)
  then have "map Number (split CHR ''-'' n) =
          [Some (int (digitsValue y)), Some (int (digitsValue m)), Some (int (digitsValue d))]"
    using ne dg by (simp add: Number_digits)
  then show ?thesis using assms(2) ne by (simp add: parseDate_def)
qed

lemma parseDate_normalized:
  assumes "normalizeDate s = Some n"
  shows "parseDate n = parseDate s" "parseDate s \<noteq> None"
proof -
  have i: "normalizeDate n = Some n" using assms by (rule normalizeDate_idem)
  show e: "parseDate n = parseDate s" by (simp add: parseDate_def assms i)
  from normalizeDate_form[OF assms] obtain y m d where "isoDateString n y m d" by blast
  then have "parseDate n \<noteq> None" using parseDate_iso i by simp
  then show "parseDate s \<noteq> None" using e by simp
qed

lemma dayOfString_None: "dayOfString s = None \<longleftrightarrow> normalizeDate s = None"
proof (cases "normalizeDate s")
  case None
  then show ?thesis by (simp add: dayOfString_def parseDate_def)
next
  case (Some n)
  then show ?thesis using parseDate_normalized(2)[OF Some] by (simp add: dayOfString_def)
qed

lemma dayOfString_normalized: "normalizeDate s = Some n \<Longrightarrow> dayOfString n = dayOfString s"
  by (simp add: dayOfString_def parseDate_normalized(1))

definition ruleApplies :: "'a DateDisableRule_scheme \<Rightarrow> int option \<Rightarrow> bool" where
  \<comment> \<open>the rule has no city (the field absent, or 0) or its city is the supplied one\<close>
  "ruleApplies r c = (cityId r = None \<or> cityId r = Some 0 \<or> cityId r = c)"

definition ruleLastDay :: "'a DateDisableRule_scheme \<Rightarrow> int \<Rightarrow> int" where
  \<comment> \<open>the last day of a rule whose first day is \<open>a\<close>: the day \<open>endDate\<close> denotes, and \<open>a\<close>
      itself when \<open>endDate\<close> is absent or is not a date\<close>
  "ruleLastDay r a =
     (case endDate r of
        None \<Rightarrow> a
      | Some e \<Rightarrow> (case dayOfString e of None \<Rightarrow> a | Some b \<Rightarrow> b))"

definition ruleCovers :: "'a DateDisableRule_scheme \<Rightarrow> int \<Rightarrow> bool" where
  \<comment> \<open>the day \<open>n\<close> lies between the first and the last day of the rule, both included; a
      rule whose \<open>startDate\<close> is not a date covers no day\<close>
  "ruleCovers r n =
     (case dayOfString (startDate r) of
        None \<Rightarrow> False
      | Some a \<Rightarrow> a \<le> n \<and> n \<le> ruleLastDay r a)"

definition dayDisabled :: "DisableSource \<Rightarrow> int option \<Rightarrow> int \<Rightarrow> bool" where
  \<comment> \<open>the day \<open>n\<close> is disabled: its string is the normal form of a listed date, or a rule
      that applies covers it\<close>
  "dayDisabled src c n =
     (case src of
        DateStrings ss \<Rightarrow> \<exists>s\<in>set ss. normalizeDate s = Some (formatDay n)
      | DateRules rs \<Rightarrow> \<exists>r\<in>set rs. ruleApplies r c \<and> ruleCovers r n)"





lemma digitValue_lt: "digitValue c < 10"
  by (simp add: digitValue_def isDigit_def)

lemma digitValue_inj: "isDigit a \<Longrightarrow> isDigit b \<Longrightarrow> digitValue a = digitValue b \<Longrightarrow> a = b"
  by (auto simp: digitValue_def isDigit_def split: if_splits)

lemma digitsValue_inj:
  "length a = length b \<Longrightarrow> list_all isDigit a \<Longrightarrow> list_all isDigit b \<Longrightarrow>
   digitsValue a = digitsValue b \<Longrightarrow> a = b"
proof (induction a arbitrary: b rule: rev_induct)
  case Nil
  then show ?case by simp
next
  case (snoc x xs)
  then obtain y ys where b: "b = ys @ [y]" by (cases b rule: rev_cases) auto
  have l: "length xs = length ys" using snoc.prems(1) b by simp
  have d: "list_all isDigit xs" "list_all isDigit ys" "isDigit x" "isDigit y"
    using snoc.prems(2,3) b by simp_all
  have e: "10 * digitsValue xs + digitValue x = 10 * digitsValue ys + digitValue y"
    using snoc.prems(4) b by (simp add: digitsValue_snoc)
  have "(10 * digitsValue xs + digitValue x) mod 10 = digitValue x"
    "(10 * digitsValue ys + digitValue y) mod 10 = digitValue y"
    using digitValue_lt by simp_all
  then have v: "digitValue x = digitValue y" using e by metis
  then have "digitsValue xs = digitsValue ys" using e by simp
  then have "xs = ys" using snoc.IH[OF l d(1,2)] by simp
  moreover have "x = y" using v d by (intro digitValue_inj)
  ultimately show ?case using b by simp
qed

lemma digitsOf_length4:
  assumes "1000 \<le> n" "n < 10000"
  shows "length (digitsOf n) = 4"
proof -
  have a: "10 \<le> n div 100" "n div 100 < 100" using assms by simp_all
  have 1: "length (digitsOf (n div 100)) = 2" using digitsOf_small(2)[OF a] by simp
  have d: "n div 10 div 10 = n div 100" by (simp add: div_mult2_eq)
  have 2: "length (digitsOf (n div 10)) = 3"
    using assms 1 by (subst digitsOf.simps) (simp add: d)
  show ?thesis using assms 2 by (subst digitsOf.simps) simp
qed

lemma padStart2_digits:
  assumes "0 \<le> k" "k \<le> 99"
  shows "list_all isDigit (padStart2 (String k))"
proof -
  have "list_all isDigit (digitsOf (nat k))" using digitsOf_props by blast
  moreover have "isDigit CHR ''0''" by (simp add: isDigit_def)
  ultimately show ?thesis using assms by (auto simp: padStart2_def String_def list_all_iff)
qed

lemma getters_midnight:
  "getFullYear (midnightOfDay n) = YearFromDay n"
  "getMonth (midnightOfDay n) = MonthFromDay n"
  "getDate (midnightOfDay n) = DateFromDay n"
  using civilDay_midnight[of n]
  by (simp_all add: getFullYear_def getMonth_def getDate_def civilDay_def)

lemma formatDay_canonical:
  assumes "1000 \<le> YearFromDay n" "YearFromDay n \<le> 9999"
  shows "normalizeDate (formatDay n) = Some (formatDay n)" "dayOfString (formatDay n) = Some n"
    "length (formatDay n) = 10"
proof -
  define Y where "Y = String (YearFromDay n)"
  define M where "M = padStart2 (String (MonthFromDay n + 1))"
  define D where "D = padStart2 (String (DateFromDay n))"
  have rm: "0 \<le> MonthFromDay n + 1" "MonthFromDay n + 1 \<le> 99"
    using MonthFromDay_range[of n] by simp_all
  have rd: "0 \<le> DateFromDay n" "DateFromDay n \<le> 99"
    using DateFromDay_range[of n] by simp_all
  have Ye: "Y = digitsOf (nat (YearFromDay n))" using assms by (simp add: Y_def String_def)
  have lY: "length Y = 4" unfolding Ye using assms by (intro digitsOf_length4) simp_all
  have dY: "list_all isDigit Y" unfolding Ye using digitsOf_props by blast
  have vY: "int (digitsValue Y) = YearFromDay n"
    unfolding Ye using digitsOf_props[of "nat (YearFromDay n)"] assms by simp
  have lM: "length M = 2" and vM: "int (digitsValue M) = MonthFromDay n + 1"
    unfolding M_def using padStart2_String[OF rm] by simp_all
  have lD: "length D = 2" and vD: "int (digitsValue D) = DateFromDay n"
    unfolding D_def using padStart2_String[OF rd] by simp_all
  have dM: "list_all isDigit M" unfolding M_def using rm by (rule padStart2_digits)
  have dD: "list_all isDigit D" unfolding D_def using rd by (rule padStart2_digits)
  have f: "formatDay n = Y @ ''-'' @ M @ ''-'' @ D"
    by (simp add: formatDay_def Y_def M_def D_def)
  have iso: "isoDateString (formatDay n) Y M D"
    unfolding isoDateString_def using f lY lM lD dY dM dD by simp
  have ny: "MakeFullYear (YearFromDay n) = YearFromDay n" using assms by (simp add: MakeFullYear_def)
  have nd: "newDate (YearFromDay n) (MonthFromDay n) (DateFromDay n) = midnightOfDay n"
    by (simp add: newDate_midnight ny MakeDay_civil)
  have real: "realDate Y M D"
    unfolding realDate_def Let_def vY vM vD
    using MonthFromDay_range[of n] DateFromDay_range[of n] by (simp add: nd getters_midnight)
  have t: "trim (formatDay n) = formatDay n" using iso by (rule trim_iso)
  have "isoDateString (trim (formatDay n)) Y M D" using iso t by simp
  then have "normalizeDate (formatDay n) = Some (Y @ ''-'' @ M @ ''-'' @ D)"
    using real by (simp add: normalizeDate_iso)
  then show N: "normalizeDate (formatDay n) = Some (formatDay n)" using f by simp
  have "parseDate (formatDay n) =
          Some (newDate (int (digitsValue Y)) (int (digitsValue M) - 1) (int (digitsValue D)))"
    using iso N by (rule parseDate_iso)
  then have "parseDate (formatDay n) = Some (midnightOfDay n)"
    unfolding vY vM vD using nd by simp
  then show "dayOfString (formatDay n) = Some n" by (simp add: dayOfString_def civilDay_midnight)
  show "length (formatDay n) = 10" using f lY lM lD by simp
qed

lemma normal_form_formatDay:
  assumes x: "normalizeDate s = Some x" and n: "dayOfString s = Some n"
    and yr: "1000 \<le> YearFromDay n" "YearFromDay n \<le> 9999"
  shows "x = formatDay n"
proof -
  from normalizeDate_form[OF x] obtain y m d
    where iso: "isoDateString x y m d" and real: "realDate y m d" by blast
  define vy where "vy = int (digitsValue y)"
  define vm where "vm = int (digitsValue m)"
  define vd where "vd = int (digitsValue d)"
  have l: "length y = 4" "length m = 2" "length d = 2"
    and dg: "list_all isDigit y" "list_all isDigit m" "list_all isDigit d"
    and xe: "x = y @ ''-'' @ m @ ''-'' @ d"
    using iso by (simp_all add: isoDateString_def)
  have cal: "1 \<le> vm" "vm \<le> 12" "1 \<le> vd" "vd \<le> daysInMonth vy vm" "99 < vy"
    using real unfolding realDate_calendar vy_def vm_def vd_def by simp_all
  have ix: "normalizeDate x = Some x" using x by (rule normalizeDate_idem(1))
  have "parseDate x = Some (newDate vy (vm - 1) vd)"
    unfolding vy_def vm_def vd_def using iso ix by (rule parseDate_iso)
  moreover have "MakeFullYear vy = vy" using cal by (simp add: MakeFullYear_def)
  ultimately have "parseDate x = Some (midnightOfDay (MakeDay vy (vm - 1) vd))"
    by (simp add: newDate_midnight)
  then have "dayOfString x = Some (MakeDay vy (vm - 1) vd)"
    by (simp add: dayOfString_def civilDay_midnight)
  then have ne: "n = MakeDay vy (vm - 1) vd" using n dayOfString_normalized[OF x] by simp
  have civ: "YearFromDay n = vy" "MonthFromDay n = vm - 1" "DateFromDay n = vd"
    unfolding ne using civil_of_MakeDay[OF cal(1,2,3,4)] by simp_all
  have vyr: "1000 \<le> vy" "vy \<le> 9999" using yr civ by simp_all
  have Y: "String vy = y"
  proof -
    have s: "String vy = digitsOf (nat vy)" using vyr by (simp add: String_def)
    have "length (digitsOf (nat vy)) = 4" using vyr by (intro digitsOf_length4) simp_all
    moreover have "list_all isDigit (digitsOf (nat vy))" using digitsOf_props by blast
    moreover have "digitsValue (digitsOf (nat vy)) = digitsValue y"
      using digitsOf_props[of "nat vy"] vyr by (simp add: vy_def)
    ultimately show ?thesis unfolding s using l dg by (intro digitsValue_inj) simp_all
  qed
  have two: "padStart2 (String k) = ds"
    if "0 \<le> k" "k \<le> 99" "length ds = 2" "list_all isDigit ds" "int (digitsValue ds) = k" for k ds
  proof -
    have "digitsValue (padStart2 (String k)) = digitsValue ds"
      using padStart2_String(2)[OF that(1,2)] that(5) by simp
    then show ?thesis
      using padStart2_String(1)[OF that(1,2)] padStart2_digits[OF that(1,2)] that(3,4)
      by (intro digitsValue_inj) simp_all
  qed
  have M: "padStart2 (String (vm - 1 + 1)) = m"
    using cal l dg by (intro two) (simp_all add: vm_def)
  have "vd \<le> 31" using cal daysInMonth_le[of vy vm] by linarith
  then have D: "padStart2 (String vd) = d"
    using cal l dg by (intro two) (simp_all add: vd_def)
  show ?thesis unfolding formatDay_def civ Y M D xe by simp
qed

lemma dayDisabled_strings:
  assumes "1000 \<le> YearFromDay n" "YearFromDay n \<le> 9999"
  shows "dayDisabled (DateStrings ss) c n \<longleftrightarrow> (\<exists>s\<in>set ss. dayOfString s = Some n)"
proof
  assume "dayDisabled (DateStrings ss) c n"
  then obtain s where s: "s \<in> set ss" "normalizeDate s = Some (formatDay n)"
    by (auto simp: dayDisabled_def)
  have "dayOfString s = dayOfString (formatDay n)"
    using dayOfString_normalized[OF s(2)] by simp
  then have "dayOfString s = Some n" using formatDay_canonical(2)[OF assms] by simp
  then show "\<exists>s\<in>set ss. dayOfString s = Some n" using s(1) by blast
next
  assume "\<exists>s\<in>set ss. dayOfString s = Some n"
  then obtain s where s: "s \<in> set ss" "dayOfString s = Some n" by blast
  then obtain x where x: "normalizeDate s = Some x"
    using dayOfString_None[of s] by (cases "normalizeDate s") auto
  have "x = formatDay n" using x s(2) assms by (rule normal_form_formatDay)
  then show "dayDisabled (DateStrings ss) c n" using s(1) x by (auto simp: dayDisabled_def)
qed



section \<open>The claims\<close>



text \<open>
  C7. \<open>calculateCartDelay\<close> is the maximum over the products of the product delays, and a
  product's delay is the maximum of the delays of its tags; an empty cart, a product
  without tags and a product whose \<open>tags\<close> field is not an array contribute 0. The result
  is never negative, and the cart with the tags \<^verbatim>\<open>delay\<close> and \<^verbatim>\<open>delay-3\<close> has delay 3, not 4.
\<close>

theorem calculateCartDelay_is_max:
  "calculateCartDelay products = Max (insert 0 (getProductDelay ` set products)) \<and>
   (\<forall>p. getProductDelay p =
      (case tags p of None \<Rightarrow> 0 | Some ts \<Rightarrow> Max (insert 0 (parseDelayFromTag ` set ts)))) \<and>
   calculateCartDelay [] = 0 \<and>
   getProductDelay \<lparr>tags = Some []\<rparr> = 0 \<and>
   getProductDelay \<lparr>tags = None\<rparr> = 0 \<and>
   0 \<le> calculateCartDelay products \<and>
   calculateCartDelay [\<lparr>tags = Some [''delay'']\<rparr>, \<lparr>tags = Some [''delay-3'']\<rparr>] = 3"
proof -
  have a: "calculateCartDelay products = Max (insert 0 (getProductDelay ` set products))"
    by (rule calculateCartDelay_Max)
  have b: "\<forall>p. getProductDelay p =
      (case tags p of None \<Rightarrow> 0 | Some ts \<Rightarrow> Max (insert 0 (parseDelayFromTag ` set ts)))"
    using getProductDelay_Max by blast
  have c: "calculateCartDelay [] = 0" by (simp add: calculateCartDelay_def)
  have d: "getProductDelay \<lparr>tags = Some []\<rparr> = 0" "getProductDelay \<lparr>tags = None\<rparr> = 0"
    by (simp_all add: getProductDelay_def)
  have e: "0 \<le> calculateCartDelay products" unfolding a by (simp add: Max_ge_iff)
  have t1: "parseDelayFromTag ''delay'' = 1" by code_simp
  have t3: "parseDelayFromTag ''delay-3'' = 3" by code_simp
  have f: "calculateCartDelay [\<lparr>tags = Some [''delay'']\<rparr>, \<lparr>tags = Some [''delay-3'']\<rparr>] = 3"
    by (simp add: calculateCartDelay_def getProductDelay_def t1 t3)
  show ?thesis using a b c d e f by blast
qed

theorem calculateCartDelay_is_max_witness:
  "calculateCartDelay [\<lparr>tags = Some [''gift'', ''delay-2'']\<rparr>, \<lparr>tags = None\<rparr>] = 2"
proof -
  have g: "parseDelayFromTag ''gift'' = 0" by code_simp
  have t: "parseDelayFromTag ''delay-2'' = 2" by code_simp
  show ?thesis
    using calculateCartDelay_is_max[of "[\<lparr>tags = Some [''gift'', ''delay-2'']\<rparr>, \<lparr>tags = None\<rparr>]"]
    by (simp add: g t)
qed




text \<open>
  C4. The errors of \<open>validateCheckout\<close> are the errors of the five field validators, in the
  order name, phone, address, date, slot, and \<open>isValid\<close> holds exactly when there is no
  error. The fields of the example (empty name, phone \<^verbatim>\<open>123\<close>, an address, empty date, slot 0)
  give the four errors name required, phone invalid, date required, slot required.
\<close>

theorem validateCheckout_aggregates:
  "errors (validateCheckout f) =
     validateFullName (fullName f) @ validatePhoneNumber (phoneNumber f) @
     validateDeliveryAddress (deliveryAddress f) @ validateDeliveryDate (deliveryDate f) @
     validateDeliveryTimeSlot (deliveryTimeSlot f) \<and>
   isValid (validateCheckout f) = (errors (validateCheckout f) = []) \<and>
   errors (validateCheckout \<lparr>fullName = '''', phoneNumber = ''123'',
             deliveryAddress = ''123 Main St'', deliveryDate = '''', deliveryTimeSlot = 0\<rparr>) =
     [FULL_NAME_REQUIRED, PHONE_NUMBER_INVALID, DELIVERY_DATE_REQUIRED,
      DELIVERY_TIME_SLOT_REQUIRED]"
proof -
  have a: "errors (validateCheckout f) =
     validateFullName (fullName f) @ validatePhoneNumber (phoneNumber f) @
     validateDeliveryAddress (deliveryAddress f) @ validateDeliveryDate (deliveryDate f) @
     validateDeliveryTimeSlot (deliveryTimeSlot f)" for f
    by (simp add: validateCheckout_def Let_def)
  have b: "isValid (validateCheckout f) = (errors (validateCheckout f) = [])"
    by (simp add: validateCheckout_def Let_def)
  have n: "validateFullName '''' = [FULL_NAME_REQUIRED]"
    by (simp add: validateFullName_def isNonEmpty_def trim_def)
  have p: "validatePhoneNumber ''123'' = [PHONE_NUMBER_INVALID]"
    by (simp add: validatePhoneNumber_def isNonEmpty_def trim_def isWhiteSpace_def isDigit_def)
  have ad: "validateDeliveryAddress ''123 Main St'' = []"
    by (simp add: validateDeliveryAddress_def isNonEmpty_def trim_def isWhiteSpace_def)
  have d: "validateDeliveryDate '''' = [DELIVERY_DATE_REQUIRED]"
    by (simp add: validateDeliveryDate_def isNonEmpty_def trim_def)
  have t: "validateDeliveryTimeSlot 0 = [DELIVERY_TIME_SLOT_REQUIRED]"
    by (simp add: validateDeliveryTimeSlot_def)
  have c: "errors (validateCheckout \<lparr>fullName = '''', phoneNumber = ''123'',
             deliveryAddress = ''123 Main St'', deliveryDate = '''', deliveryTimeSlot = 0\<rparr>) =
     [FULL_NAME_REQUIRED, PHONE_NUMBER_INVALID, DELIVERY_DATE_REQUIRED,
      DELIVERY_TIME_SLOT_REQUIRED]"
    unfolding a by (simp add: n p ad d t)
  show ?thesis using a[of f] b c by blast
qed

theorem validateCheckout_aggregates_witness:
  "isValid (validateCheckout \<lparr>fullName = ''John Doe'', phoneNumber = ''+1 555-123-4567'',
              deliveryAddress = ''123 Main St'', deliveryDate = ''2024-12-25'',
              deliveryTimeSlot = 1\<rparr>)"
proof -
  let ?f = "\<lparr>fullName = ''John Doe'', phoneNumber = ''+1 555-123-4567'',
              deliveryAddress = ''123 Main St'', deliveryDate = ''2024-12-25'',
              deliveryTimeSlot = 1\<rparr>"
  have n: "validateFullName ''John Doe'' = []" by code_simp
  have p: "validatePhoneNumber ''+1 555-123-4567'' = []" by code_simp
  have a: "validateDeliveryAddress ''123 Main St'' = []" by code_simp
  have d: "validateDeliveryDate ''2024-12-25'' = []" by code_simp
  have t: "validateDeliveryTimeSlot 1 = []" by code_simp
  show ?thesis using validateCheckout_aggregates[of ?f] by (simp add: n p a d t)
qed

text \<open>
  C8. \<open>isBeforeCutoff\<close> holds exactly when the trimmed cutoff is a time of day (one or two
  digits of an hour from 0 to 23, a colon, two digits of a minute from 0 to 59) and the
  hour and minute of \<open>now\<close> are strictly before it. When the cutoff is no such string,
  \<open>parseTime\<close> returns nothing and \<open>isBeforeCutoff\<close> is false; no branch of either function
  raises.
\<close>

theorem isBeforeCutoff_strict:
  "(isBeforeCutoff cutoff now \<longleftrightarrow>
      (\<exists>h m. timeOfDayString (trim cutoff) h m \<and>
             (getHours now < h \<or> (getHours now = h \<and> getMinutes now < m)))) \<and>
   ((\<forall>h m. \<not> timeOfDayString (trim cutoff) h m) \<longrightarrow>
      parseTime cutoff = None \<and> \<not> isBeforeCutoff cutoff now)"
proof (cases "parseTime cutoff")
  case None
  then have n: "\<forall>h m. \<not> timeOfDayString (trim cutoff) h m" by (simp add: parseTime_None)
  have "\<not> isBeforeCutoff cutoff now" by (simp add: isBeforeCutoff_def None)
  then show ?thesis using n None by blast
next
  case (Some p)
  then have t: "timeOfDayString (trim cutoff) (hours p) (minutes p)" by (rule parseTime_elim)
  have u: "h = hours p \<and> m = minutes p" if "timeOfDayString (trim cutoff) h m" for h m
  proof -
    from that have "parseTime cutoff = Some \<lparr>hours = h, minutes = m\<rparr>" by (rule parseTime_intro)
    then have "p = \<lparr>hours = h, minutes = m\<rparr>" using Some by simp
    then show ?thesis by simp
  qed
  have b: "isBeforeCutoff cutoff now \<longleftrightarrow>
             (getHours now < hours p \<or> (getHours now = hours p \<and> getMinutes now < minutes p))"
    by (auto simp: isBeforeCutoff_def Some Let_def)
  show ?thesis using b t u by blast
qed

theorem isBeforeCutoff_strict_witness:
  "timeOfDayString (trim ''14:00'') 14 0 \<and>
   isBeforeCutoff ''14:00'' (newDateTime 2024 11 24 10 0) \<and>
   \<not> isBeforeCutoff ''14:00'' (newDateTime 2024 11 24 14 0) \<and>
   (\<forall>h m. \<not> timeOfDayString (trim ''25:00'') h m) \<and>
   \<not> isBeforeCutoff ''25:00'' (newDateTime 2024 11 24 10 0)"
proof -
  have a: "isBeforeCutoff ''14:00'' (newDateTime 2024 11 24 10 0)" by code_simp
  have b: "\<not> isBeforeCutoff ''14:00'' (newDateTime 2024 11 24 14 0)" by code_simp
  have p: "parseTime ''14:00'' = Some \<lparr>hours = 14, minutes = 0\<rparr>" by code_simp
  have t: "timeOfDayString (trim ''14:00'') 14 0" using parseTime_elim[OF p] by simp
  have n: "parseTime ''25:00'' = None" by code_simp
  have f: "\<forall>h m. \<not> timeOfDayString (trim ''25:00'') h m" using n by (simp add: parseTime_None)
  have c: "\<not> isBeforeCutoff ''25:00'' (newDateTime 2024 11 24 10 0)"
    using isBeforeCutoff_strict[of "''25:00''" "newDateTime 2024 11 24 10 0"] f by blast
  show ?thesis using a b t f c by blast
qed

text \<open>
  C10. When no slot of the collection has the identifier \<open>slotId\<close>, \<open>isSlotAvailable\<close> is
  false; otherwise, with \<open>i\<close> the position of the first slot with that identifier, it is
  the negation of the \<open>disabled\<close> flag that \<open>checkSlotAvailability\<close> reports for that slot.
\<close>

theorem isSlotAvailable_first_match:
  "((\<forall>s\<in>set slots. TimeSlot.id s \<noteq> slotId) \<longrightarrow>
      \<not> isSlotAvailable slotId slots date cityIdArg rules) \<and>
   (i < length slots \<and> TimeSlot.id (slots ! i) = slotId \<and>
    (\<forall>j<i. TimeSlot.id (slots ! j) \<noteq> slotId) \<longrightarrow>
      isSlotAvailable slotId slots date cityIdArg rules =
        (\<not> disabled (checkSlotAvailability (slots ! i) date cityIdArg rules)))"
proof (intro conjI impI)
  assume "\<forall>s\<in>set slots. TimeSlot.id s \<noteq> slotId"
  then have "find (\<lambda>s. TimeSlot.id s = slotId) slots = None" by (simp add: find_None_iff2)
  then show "\<not> isSlotAvailable slotId slots date cityIdArg rules"
    by (simp add: isSlotAvailable_def)
next
  assume h: "i < length slots \<and> TimeSlot.id (slots ! i) = slotId \<and>
             (\<forall>j<i. TimeSlot.id (slots ! j) \<noteq> slotId)"
  have "find (\<lambda>s. TimeSlot.id s = slotId) slots = Some (slots ! i)"
    using h by (intro find_first) auto
  then show "isSlotAvailable slotId slots date cityIdArg rules =
        (\<not> disabled (checkSlotAvailability (slots ! i) date cityIdArg rules))"
    by (simp add: isSlotAvailable_def)
qed

theorem isSlotAvailable_first_match_witness:
  "isSlotAvailable 2
     [\<lparr>TimeSlot.id = 1, shop = ''s'', startTime = ''09:00'', endTime = ''12:00'', isActive = True,
        label = None\<rparr>,
      \<lparr>TimeSlot.id = 2, shop = ''s'', startTime = ''12:00'', endTime = ''15:00'', isActive = True,
        label = None\<rparr>]
     ''2024-12-25'' None [] \<and>
   \<not> isSlotAvailable 3
     [\<lparr>TimeSlot.id = 1, shop = ''s'', startTime = ''09:00'', endTime = ''12:00'', isActive = True,
        label = None\<rparr>,
      \<lparr>TimeSlot.id = 2, shop = ''s'', startTime = ''12:00'', endTime = ''15:00'', isActive = True,
        label = None\<rparr>]
     ''2024-12-25'' None []"
proof -
  let ?s1 = "\<lparr>TimeSlot.id = 1, shop = ''s'', startTime = ''09:00'', endTime = ''12:00'',
               isActive = True, label = None\<rparr>"
  let ?s2 = "\<lparr>TimeSlot.id = 2, shop = ''s'', startTime = ''12:00'', endTime = ''15:00'',
               isActive = True, label = None\<rparr>"
  have d: "\<not> disabled (checkSlotAvailability ?s2 ''2024-12-25'' None [])"
    by (simp add: checkSlotAvailability_def checkSlotActive_def checkDateSpecificDisable_def)
  have a: "isSlotAvailable 2 [?s1, ?s2] ''2024-12-25'' None [] =
             (\<not> disabled (checkSlotAvailability ([?s1, ?s2] ! 1) ''2024-12-25'' None []))"
    using isSlotAvailable_first_match[of "[?s1, ?s2]" 2 "''2024-12-25''" None "[]" 1]
    by simp
  have b: "\<not> isSlotAvailable 3 [?s1, ?s2] ''2024-12-25'' None []"
    using isSlotAvailable_first_match[of "[?s1, ?s2]" 3 "''2024-12-25''" None "[]" 0] by simp
  show ?thesis using a b d by simp
qed




text \<open>
  C5. When the trimmed input is \<^verbatim>\<open>YYYY-MM-DD\<close> or \<^verbatim>\<open>DD/MM/YYYY\<close> and its digits denote a
  real date (month from 1 to 12, day from 1 to 31, and the date constructed from them has
  the same year, month and day), \<open>normalizeDate\<close> returns \<^verbatim>\<open>YYYY-MM-DD\<close>; in every other case
  it returns nothing. The three examples of the claim hold. By \<open>realDate_calendar\<close> the
  round trip succeeds exactly for the days of the Gregorian calendar in the years from
  0100 on.
\<close>

theorem normalizeDate_canonical:
  "(\<forall>y m d. (isoDateString (trim s) y m d \<or> euroDateString (trim s) d m y) \<and> realDate y m d \<longrightarrow>
      normalizeDate s = Some (y @ ''-'' @ m @ ''-'' @ d)) \<and>
   ((\<forall>y m d. \<not> ((isoDateString (trim s) y m d \<or> euroDateString (trim s) d m y) \<and>
               realDate y m d)) \<longrightarrow>
      normalizeDate s = None) \<and>
   normalizeDate ''25/12/2024'' = Some ''2024-12-25'' \<and>
   normalizeDate ''31/02/2024'' = None \<and>
   normalizeDate ''2024-13-01'' = None"
proof -
  have a: "\<forall>y m d. (isoDateString (trim s) y m d \<or> euroDateString (trim s) d m y) \<and> realDate y m d \<longrightarrow>
      normalizeDate s = Some (y @ ''-'' @ m @ ''-'' @ d)"
    using normalizeDate_iso normalizeDate_euro by auto
  have b: "(\<forall>y m d. \<not> ((isoDateString (trim s) y m d \<or> euroDateString (trim s) d m y) \<and>
               realDate y m d)) \<longrightarrow> normalizeDate s = None"
    using normalizeDate_Some_elim[of s] by (cases "normalizeDate s") auto
  have c: "normalizeDate ''25/12/2024'' = Some ''2024-12-25''" by code_simp
  have d: "normalizeDate ''31/02/2024'' = None" by code_simp
  have e: "normalizeDate ''2024-13-01'' = None" by code_simp
  show ?thesis using a b c d e by blast
qed

theorem normalizeDate_canonical_witness:
  "isoDateString (trim '' 2024-02-29 '') ''2024'' ''02'' ''29'' \<and> realDate ''2024'' ''02'' ''29'' \<and>
   normalizeDate '' 2024-02-29 '' = Some ''2024-02-29''"
proof -
  have t: "trim '' 2024-02-29 '' = ''2024-02-29''" by code_simp
  have i: "isoDateString (trim '' 2024-02-29 '') ''2024'' ''02'' ''29''"
    unfolding t by (simp add: isoDateString_def isDigit_def)
  have r: "realDate ''2024'' ''02'' ''29''" by code_simp
  have "normalizeDate '' 2024-02-29 '' = Some (''2024'' @ ''-'' @ ''02'' @ ''-'' @ ''29'')"
    using normalizeDate_canonical[of "'' 2024-02-29 ''"] i r by blast
  then show ?thesis using i r by simp
qed







end
